theory Spec2Isabelle
  imports Complex_Main "HOL-Library.AList"
begin

section \<open>The word registry of EnhancedLightBasedNeuralProcessor.jsx\<close>

text \<open>
  The component keeps its model in the React state \<open>words\<close>, an array of \<open>WordData\<close>
  objects. \<open>addWords\<close> is the only function that changes it; \<open>updateWordData\<close> writes
  the array into a texture buffer; \<open>processInput\<close> feeds a phrase to \<open>addWords\<close> and
  then walks the successor tables.

  Numbers: \<open>frequency\<close> and the successor counts are JavaScript numbers that only ever
  hold small non-negative integers (they start at 1 and grow by 1), so they are \<open>nat\<close>.
  \<open>hue\<close>, \<open>saturation\<close> and the cells of the texture buffer are \<open>real\<close> numbers.
  A cell of the \<open>Float32Array\<close> holds what is assigned to it rounded to a 32-bit
  float, and the quotient written to channel 0 is a 64-bit division; both roundings
  are modelled (\<open>fround\<close>, \<open>dround\<close> below). The 64-bit arithmetic that makes
  \<open>saturation\<close> from a random draw is taken as exact.

  A JavaScript \<open>Map\<close> iterates in insertion order, and \<open>set\<close> on a key that is
  present keeps the key's position. Both orders are observable here (through the
  stable \<open>sort\<close> calls), so a \<open>Map\<close> is an association list with distinct keys:
  \<open>map.get(k)\<close> is \<open>map_of m k\<close>, \<open>map.has(k)\<close> is \<open>map_of m k \<noteq> None\<close>,
  \<open>map.set(k, v)\<close> is \<open>AList.update k v m\<close> (replace in place, or append), and
  \<open>map.size\<close> is \<open>length m\<close>.
\<close>

definition TEXTURE_SIZE :: nat where
  "TEXTURE_SIZE = 4096"

definition MAX_WORDS :: nat where
  "MAX_WORDS = 100000"

record WordData =
  word :: string
  frequency :: nat
  hue :: real
  saturation :: real
  nextWords :: "(string \<times> nat) list"

type_synonym WordMap = "(string \<times> WordData) list"

text \<open>
  \<open>Math.random()\<close> is the only source of non-determinism. It is modelled by a stream
  \<open>rnd\<close> of the values it returns and a counter \<open>n\<close> of the calls made so far, threaded
  through the code.
\<close>

type_synonym random_source = "nat \<Rightarrow> real"

text \<open>\<open>new Map(entries)\<close>: the entries are set one after the other, starting from an empty map.\<close>

definition new_Map :: "('k \<times> 'v) list \<Rightarrow> ('k \<times> 'v) list" where
  "new_Map entries = fold (\<lambda>e m. AList.update (fst e) (snd e) m) entries []"

text \<open>
  The body of the \<open>for\<close> loop of \<open>addWords\<close>, for one index \<open>i\<close>, with
  \<open>currentWord = newWords[i]\<close> and \<open>nextWord = newWords[i + 1]\<close>. The object held
  in the map is mutated in place in the first branch; the entry keeps its position.
  In the second branch \<open>hue\<close> is drawn before \<open>saturation\<close>.
\<close>

definition addPair :: "random_source \<Rightarrow> string \<Rightarrow> string \<Rightarrow> nat \<times> WordMap \<Rightarrow> nat \<times> WordMap" where
  "addPair rnd currentWord nextWord s =
     (case s of (n, wordMap) \<Rightarrow>
        (case map_of wordMap currentWord of
           Some w \<Rightarrow>
             (n, AList.update currentWord
                   (w\<lparr>frequency := frequency w + 1,
                      nextWords := AList.update nextWord
                        ((case map_of (nextWords w) nextWord of None \<Rightarrow> 0 | Some c \<Rightarrow> c) + 1)
                        (nextWords w)\<rparr>)
                   wordMap)
         | None \<Rightarrow>
             if length wordMap < MAX_WORDS
             then (n + 2, AList.update currentWord
                     \<lparr>word = currentWord, frequency = 1, hue = rnd n,
                      saturation = 0.5 + rnd (n + 1) * 0.5,
                      nextWords = [(nextWord, 1)]\<rparr>
                     wordMap)
             else (n, wordMap)))"

text \<open>
  \<open>for (let i = 0; i < newWords.length - 1; i++)\<close>. For an empty \<open>newWords\<close> the bound
  is \<open>-1\<close> and the body never runs, which \<open>i + 1 < length newWords\<close> says on \<open>nat\<close>.
\<close>

function addWords_loop :: "random_source \<Rightarrow> string list \<Rightarrow> nat \<Rightarrow> nat \<times> WordMap \<Rightarrow> nat \<times> WordMap" where
  "addWords_loop rnd newWords i s =
     (if i + 1 < length newWords
      then addWords_loop rnd newWords (i + 1) (addPair rnd (newWords ! i) (newWords ! (i + 1)) s)
      else s)"
  by pat_completeness auto
termination
  by (relation "measure (\<lambda>(rnd, newWords, i, s). length newWords - i)") auto

declare addWords_loop.simps [simp del]

text \<open>
  \<open>.sort((a, b) => b.frequency - a.frequency)\<close>: descending by frequency.
  \<open>Array.prototype.sort\<close> is stable (ECMAScript 2019), as is \<open>sort_key\<close>.
\<close>

definition sort_by_frequency :: "WordData list \<Rightarrow> WordData list" where
  "sort_by_frequency ws = sort_key (\<lambda>w. - int (frequency w)) ws"

text \<open>
  The updater that \<open>addWords\<close> passes to \<open>setWords\<close>: from the previous array
  \<open>prevWords\<close> to the next one. The result is paired with the counter of the random
  source. React runs the updater of a \<open>setWords\<close> call once (the second run that
  \<open>React.StrictMode\<close> adds in a development build is not modelled). The call
  \<open>updateWordData(updatedWords)\<close> inside the updater does not touch the array; it is
  modelled on its own below.
\<close>

definition addWords :: "random_source \<Rightarrow> nat \<Rightarrow> string list \<Rightarrow> WordData list \<Rightarrow> nat \<times> WordData list" where
  "addWords rnd n newWords prevWords =
     (case addWords_loop rnd newWords 0 (n, new_Map (map (\<lambda>w. (word w, w)) prevWords)) of
        (n', wordMap) \<Rightarrow> (n', sort_by_frequency (map snd wordMap)))"

text \<open>
  The states the component can be in: \<open>useState([])\<close> at the start, then one
  \<open>addWords\<close> batch after the other, each with any tokens and any random draws.
\<close>

inductive reachable :: "WordData list \<Rightarrow> bool" where
  reachable_init: "reachable []"
| reachable_addWords: "reachable ws \<Longrightarrow> reachable (snd (addWords rnd n newWords ws))"

section \<open>updateWordData: the texture buffer\<close>

text \<open>
  A \<open>Float32Array\<close> of \<open>TEXTURE_SIZE * TEXTURE_SIZE * 4\<close> numbers is a function from
  the index to the number held there; only indices below \<open>BUFFER_LENGTH\<close> exist.
  A write at an index that does not exist is ignored, as typed arrays do.
\<close>

type_synonym Float32Array = "nat \<Rightarrow> real"

definition BUFFER_LENGTH :: nat where
  "BUFFER_LENGTH = TEXTURE_SIZE * TEXTURE_SIZE * 4"

definition new_Float32Array :: Float32Array where
  "new_Float32Array = (\<lambda>j. 0)"

text \<open>
  Rounding to a binary floating-point format with \<open>p\<close> significant bits and least
  exponent \<open>emin\<close>, to the nearest value, ties to the even significand (IEEE 754
  round-to-nearest-even, with subnormal numbers). \<open>fround\<close> is the rounding to a 32-bit
  float that a \<open>Float32Array\<close> applies to what is assigned to an element
  (\<open>Math.fround\<close>), \<open>dround\<close> the rounding of a 64-bit arithmetic result. Results
  beyond the largest finite value, which become \<open>Infinity\<close>, are outside the model:
  the numbers rounded here lie in [0, 1].
\<close>

definition round_half_even :: "real \<Rightarrow> int" where
  "round_half_even x =
     (if x - of_int \<lfloor>x\<rfloor> < 1 / 2 then \<lfloor>x\<rfloor>
      else if 1 / 2 < x - of_int \<lfloor>x\<rfloor> then \<lfloor>x\<rfloor> + 1
      else if even \<lfloor>x\<rfloor> then \<lfloor>x\<rfloor> else \<lfloor>x\<rfloor> + 1)"

definition round_binary :: "nat \<Rightarrow> int \<Rightarrow> real \<Rightarrow> real" where
  "round_binary p emin x =
     (if x = 0 then 0
      else of_int (round_half_even (x / 2 powi (max \<lfloor>log 2 \<bar>x\<bar>\<rfloor> emin - int p + 1)))
             * 2 powi (max \<lfloor>log 2 \<bar>x\<bar>\<rfloor> emin - int p + 1))"

definition fround :: "real \<Rightarrow> real" where
  "fround x = round_binary 24 (- 126) x"

definition dround :: "real \<Rightarrow> real" where
  "dround x = round_binary 53 (- 1022) x"

text \<open>\<open>a[j] = v\<close> on a \<open>Float32Array\<close>.\<close>

definition store :: "Float32Array \<Rightarrow> nat \<Rightarrow> real \<Rightarrow> Float32Array" where
  "store a j v = (if j < BUFFER_LENGTH then a(j := fround v) else a)"

text \<open>
  \<open>Math.max(...newWords.map(w => w.frequency))\<close>. The body of \<open>forEach\<close> runs only
  when \<open>newWords\<close> has an element, and frequencies are not negative, so starting the
  maximum from 0 gives the value \<open>Math.max\<close> returns there. (An engine's limit on the
  number of arguments of a call is not modelled.)
\<close>

definition max_frequency :: "WordData list \<Rightarrow> nat" where
  "max_frequency newWords = fold max (map frequency newWords) 0"

text \<open>\<open>newWords.forEach((word, index) => ...)\<close>, from \<open>index\<close> on.\<close>

fun forEach_write :: "WordData list \<Rightarrow> WordData list \<Rightarrow> nat \<Rightarrow> Float32Array \<Rightarrow> Float32Array" where
  "forEach_write newWords [] index wordData = wordData"
| "forEach_write newWords (w # rest) index wordData =
     forEach_write newWords rest (index + 1)
       (store (store (store (store wordData
          (index * 4) (dround (real (frequency w) / real (max_frequency newWords))))
          (index * 4 + 1) (hue w))
          (index * 4 + 2) (saturation w))
          (index * 4 + 3) 1)"

text \<open>
  \<open>gl.texSubImage2D(target, level, xoffset, yoffset, width, height, format, type, pixels)\<close>
  on an RGBA float texture of \<open>TEXTURE_SIZE\<close> by \<open>TEXTURE_SIZE\<close> texels kept row by row:
  the texels of the rectangle are replaced by those of \<open>pixels\<close>, the others are kept.
\<close>

definition texSubImage2D ::
  "Float32Array \<Rightarrow> nat \<Rightarrow> nat \<Rightarrow> nat \<Rightarrow> nat \<Rightarrow> Float32Array \<Rightarrow> Float32Array" where
  "texSubImage2D texture xoffset yoffset width height pixels =
     (\<lambda>j. let x = (j div 4) mod TEXTURE_SIZE; y = (j div 4) div TEXTURE_SIZE
          in if j < BUFFER_LENGTH \<and> xoffset \<le> x \<and> x < xoffset + width
                \<and> yoffset \<le> y \<and> y < yoffset + height
             then pixels (((y - yoffset) * width + (x - xoffset)) * 4 + j mod 4)
             else texture j)"

text \<open>
  \<open>updateWordData\<close>: \<open>ready\<close> is the test \<open>gl && wordDataTextureRef.current\<close>;
  \<open>texture\<close> is the content of the texture before the call, the result its content after.
\<close>

definition updateWordData :: "bool \<Rightarrow> Float32Array \<Rightarrow> WordData list \<Rightarrow> Float32Array" where
  "updateWordData ready texture newWords =
     (if ready
      then texSubImage2D texture 0 0 TEXTURE_SIZE TEXTURE_SIZE
             (forEach_write newWords newWords 0 new_Float32Array)
      else texture)"

text \<open>
  The texture as the effect hook first fills it: three random draws and 1.0 for each
  texel, handed whole to \<open>texImage2D\<close>.
\<close>

definition initial_texture :: "random_source \<Rightarrow> Float32Array" where
  "initial_texture rnd =
     (\<lambda>j. if j mod 4 = 3 then fround 1 else fround (rnd (3 * (j div 4) + j mod 4)))"

section \<open>processInput: the greedy walk\<close>

text \<open>
  \<open>Array.from(wordData.nextWords.entries())\<close>, sorted by count descending (stable), and
  the key of its first entry.
\<close>

definition best_successor :: "(string \<times> nat) list \<Rightarrow> string" where
  "best_successor entries = fst (hd (sort_key (\<lambda>e. - int (snd e)) entries))"

text \<open>\<open>words.find(w => w.word === currentWord)\<close>: the first such element, if any.\<close>

definition find_word :: "WordData list \<Rightarrow> string \<Rightarrow> WordData option" where
  "find_word words currentWord = find (\<lambda>w. word w = currentWord) words"

text \<open>
  The \<open>for\<close> loop of \<open>processInput\<close> with \<open>k\<close> iterations left; the result is what
  the iterations push onto \<open>outputWords\<close>. \<open>break\<close> ends the list.
\<close>

fun walk :: "nat \<Rightarrow> WordData list \<Rightarrow> string \<Rightarrow> string list" where
  "walk 0 words currentWord = []"
| "walk (Suc k) words currentWord =
     (case find_word words currentWord of
        None \<Rightarrow> []
      | Some wordData \<Rightarrow>
          if length (nextWords wordData) = 0 then []
          else best_successor (nextWords wordData)
                 # walk k words (best_successor (nextWords wordData)))"

text \<open>
  \<open>processInput\<close> calls \<open>addWords(inputWords)\<close>, which hands the updater to
  \<open>setWords\<close>, and then walks over \<open>words\<close>: the array bound in the closure of the
  render that made the callback (\<open>useCallback(..., [words, addWords])\<close>), not the
  array the updater returns. The objects in that array are the ones the updater
  mutates in place. React may run the updater before \<open>setWords\<close> returns or only at
  the next render; \<open>eager\<close> says which. In the first case the walk reads the objects
  of \<open>words\<close> after mutation, in the second before. (The objects are found again by
  their key, which is exact when the keys of \<open>words\<close> are distinct, as they are in
  every reachable state.)
\<close>

definition seen_words :: "bool \<Rightarrow> WordData list \<Rightarrow> WordData list \<Rightarrow> WordData list" where
  "seen_words eager words updatedWords =
     (if eager
      then map (\<lambda>w. case find_word updatedWords (word w) of
                       Some u \<Rightarrow> u | None \<Rightarrow> w) words
      else words)"

text \<open>
  \<open>tokens\<close> is \<open>phrase.toLowerCase().split(/\s+/)\<close>, which always has an element.
  For an empty list \<open>inputWords[inputWords.length - 1]\<close> would be \<open>undefined\<close>, which
  no word equals, and the loop would stop at once. The result is the next state
  (random counter and array) and \<open>outputWords\<close>.
\<close>

definition processInput ::
  "bool \<Rightarrow> random_source \<Rightarrow> nat \<Rightarrow> WordData list \<Rightarrow> string list
     \<Rightarrow> (nat \<times> WordData list) \<times> string list" where
  "processInput eager rnd n words tokens =
     (let inputWords = take 10 tokens;
          updated = addWords rnd n inputWords words;
          outputWords =
            (if inputWords = [] then []
             else walk 10 (seen_words eager words (snd updated)) (last inputWords))
      in (updated, outputWords))"

section \<open>Auxiliary definitions\<close>

text \<open>
  The loop of \<open>addWords\<close> by recursion on the tokens that are left (shown below to be
  the loop); it is what the concrete runs are computed with.
\<close>

fun addPairs :: "random_source \<Rightarrow> string list \<Rightarrow> nat \<times> WordMap \<Rightarrow> nat \<times> WordMap" where
  "addPairs rnd (c # x # rest) s = addPairs rnd (x # rest) (addPair rnd c x s)"
| "addPairs rnd [c] s = s"
| "addPairs rnd [] s = s"

text \<open>
  What the walk reads of a word, and what the order of the array depends on: all
  fields but \<open>hue\<close> and \<open>saturation\<close>.
\<close>

definition counts :: "WordData \<Rightarrow> string \<times> nat \<times> (string \<times> nat) list" where
  "counts w = (word w, frequency w, nextWords w)"

text \<open>
  \<open>word.nextWords.get(nextWord) || 0\<close>: the count of a successor, 0 when it has no
  entry.
\<close>

definition successor_count :: "WordData \<Rightarrow> string \<Rightarrow> nat" where
  "successor_count w x = (case map_of (nextWords w) x of None \<Rightarrow> 0 | Some c \<Rightarrow> c)"

section \<open>The order of a snapshot in the words of the specification\<close>



section \<open>Invariants of the registry\<close>

text \<open>
  In the map of \<open>addWords\<close> every entry is filed under its own \<open>word\<close>, and a key
  occurs once.
\<close>

definition key_inv :: "WordMap \<Rightarrow> bool" where
  "key_inv wm = (distinct (map fst wm) \<and> (\<forall>e \<in> set wm. word (snd e) = fst e))"

text \<open>
  The sum of a word's successor counts, and what holds of every word of the registry:
  its frequency is at least 1 and equals that sum. \<open>registry_inv\<close> is the invariant of
  the map inside \<open>addWords\<close>, \<open>words_inv\<close> that of the array \<open>words\<close>.
\<close>

definition successor_total :: "WordData \<Rightarrow> nat" where
  "successor_total w = sum_list (map snd (nextWords w))"

definition word_inv :: "WordData \<Rightarrow> bool" where
  "word_inv w = (1 \<le> frequency w \<and> frequency w = successor_total w)"

definition registry_inv :: "WordMap \<Rightarrow> bool" where
  "registry_inv wm = (key_inv wm \<and> length wm \<le> MAX_WORDS \<and> (\<forall>e \<in> set wm. word_inv (snd e)))"

definition words_inv :: "WordData list \<Rightarrow> bool" where
  "words_inv ws = (distinct (map word ws) \<and> length ws \<le> MAX_WORDS \<and> (\<forall>w \<in> set ws. word_inv w))"

section \<open>Concrete inputs\<close>

text \<open>A random source whose every draw is 0, which \<open>Math.random()\<close> may return.\<close>

definition rnd0 :: random_source where
  "rnd0 = (\<lambda>n. 0)"

text \<open>
  The three batches a, b, a, b; a, b, a, b; a, b from the empty registry (the first
  makes four random draws, the others none), and the one batch a, b, a.
\<close>

definition run3 :: "random_source \<Rightarrow> WordData list" where
  "run3 rnd =
     snd (addWords rnd 4 [''a'', ''b'']
       (snd (addWords rnd 4 [''a'', ''b'', ''a'', ''b'']
         (snd (addWords rnd 0 [''a'', ''b'', ''a'', ''b''] [])))))"

definition run1 :: "WordData list" where
  "run1 = snd (addWords rnd0 0 [''a'', ''b'', ''a''] [])"

text \<open>
  A registry map that is full: \<open>MAX_WORDS\<close> entries with the keys "w", "wx", "wxx", ...
\<close>

definition numbered :: "nat \<Rightarrow> WordData" where
  "numbered i = \<lparr>word = CHR ''w'' # replicate i (CHR ''x''), frequency = 1, hue = 0,
                 saturation = 0.5, nextWords = [(''z'', 1)]\<rparr>"

definition full_map :: WordMap where
  "full_map = (''w'', numbered 0) # map (\<lambda>i. (word (numbered i), numbered i)) [1..<MAX_WORDS]"

text \<open>A registry array that is full, with the map \<open>full_map\<close> as its entries.\<close>

definition full_words :: "WordData list" where
  "full_words = numbered 0 # map numbered [1..<MAX_WORDS]"

text \<open>
  The registry after the one batch a, b, a, c: "a" with successors b and c, then
  "b" with successor a.
\<close>

definition sched_words :: "WordData list" where
  "sched_words = snd (addWords rnd0 0 [''a'', ''b'', ''a'', ''c''] [])"



text \<open>The batch of the end-to-end example, and a second random source.\<close>

definition light_words :: "random_source \<Rightarrow> WordData list" where
  "light_words rnd = snd (addWords rnd 0
     [''light'', ''based'', ''neural'', ''network'', ''light'', ''based'', ''system''] [])"

definition rnd_half :: random_source where
  "rnd_half = (\<lambda>n. 1 / 2)"

text \<open>
  The registry that the seed a, a leaves when it is fed to the empty registry, and the
  word "based" of the end-to-end example.
\<close>

definition seed_aa :: "WordData list" where
  "seed_aa = [\<lparr>word = ''a'', frequency = 1, hue = 0, saturation = 0.5,
               nextWords = [(''a'', 1)]\<rparr>]"

definition based_word :: WordData where
  "based_word = \<lparr>word = ''based'', frequency = 2, hue = 0, saturation = 0.5,
                  nextWords = [(''neural'', 1), (''system'', 1)]\<rparr>"

section \<open>Maps and the loop\<close>

lemma update_append_fresh:
  "k \<notin> fst ` set al \<Longrightarrow> AList.update k v al = al @ [(k, v)]"
  by (induction al) auto

lemma fold_update_distinct:
  "distinct (map fst (acc @ xs)) \<Longrightarrow>
   fold (\<lambda>e m. AList.update (fst e) (snd e) m) xs acc = acc @ xs"
proof (induction xs arbitrary: acc)
  case Nil
  then show ?case by simp
next
  case (Cons x xs)
  have fresh: "fst x \<notin> fst ` set acc" using Cons.prems by auto
  have "distinct (map fst ((acc @ [x]) @ xs))" using Cons.prems by simp
  then have "fold (\<lambda>e m. AList.update (fst e) (snd e) m) xs (acc @ [x]) = (acc @ [x]) @ xs"
    by (rule Cons.IH)
  then show ?case using fresh by (simp add: update_append_fresh)
qed

lemma new_Map_distinct: "distinct (map fst xs) \<Longrightarrow> new_Map xs = xs"
  using fold_update_distinct [of "[]" xs] by (simp add: new_Map_def)

lemma new_Map_words: "distinct (map word ws) \<Longrightarrow> new_Map (map (\<lambda>w. (word w, w)) ws) = map (\<lambda>w. (word w, w)) ws"
  by (rule new_Map_distinct) (simp add: comp_def)

lemma addWords_loop_fold:
  "addWords_loop rnd ts i s =
     fold (\<lambda>j. addPair rnd (ts ! j) (ts ! (j + 1))) [i..<length ts - 1] s"
proof (induction rnd ts i s rule: addWords_loop.induct)
  case (1 rnd newWords i s)
  show ?case
  proof (cases "i + 1 < length newWords")
    case True
    then have "[i..<length newWords - 1] = i # [i + 1..<length newWords - 1]"
      by (simp add: upt_conv_Cons)
    with True "1.IH" show ?thesis
      by (subst addWords_loop.simps) simp
  next
    case False
    then show ?thesis by (subst addWords_loop.simps) simp
  qed
qed


lemma set_update_subset: "set (AList.update k v al) \<subseteq> insert (k, v) (set al)"
  by (induction al) auto

lemma key_inv_update: "key_inv wm \<Longrightarrow> word v = k \<Longrightarrow> key_inv (AList.update k v wm)"
  unfolding key_inv_def using set_update_subset [of k v wm]
  by (auto simp: distinct_update)

lemma map_of_word: "key_inv wm \<Longrightarrow> map_of wm k = Some w \<Longrightarrow> word w = k"
  unfolding key_inv_def by (auto dest: map_of_SomeD)

lemma key_inv_addPair: "key_inv (snd s) \<Longrightarrow> key_inv (snd (addPair rnd c x s))"
  by (cases s) (auto simp: addPair_def key_inv_update map_of_word split: option.splits)

lemma fold_invariant:
  "P s \<Longrightarrow> (\<And>x s. P s \<Longrightarrow> P (f x s)) \<Longrightarrow> P (fold f xs s)"
  by (induction xs arbitrary: s) auto

lemma key_inv_loop: "key_inv (snd s) \<Longrightarrow> key_inv (snd (addWords_loop rnd ts i s))"
  unfolding addWords_loop_fold
  by (rule fold_invariant [where P = "\<lambda>s. key_inv (snd s)"]) (auto intro: key_inv_addPair)


lemma length_update:
  "length (AList.update k v al) = (if k \<in> fst ` set al then length al else Suc (length al))"
  by (induction al) auto

lemma sum_update:
  "sum_list (map snd (AList.update k ((case map_of al k of None \<Rightarrow> 0 | Some c \<Rightarrow> c) + 1) al))
     = sum_list (map snd al) + (1::nat)"
  by (induction al) auto

lemma addPair_cases:
  obtains (existing) n wm w where "s = (n, wm)" "map_of wm c = Some w"
      "(c, w) \<in> set wm" "c \<in> fst ` set wm"
      "addPair rnd c x s = (n, AList.update c
          (w\<lparr>frequency := frequency w + 1,
             nextWords := AList.update x
               ((case map_of (nextWords w) x of None \<Rightarrow> 0 | Some c \<Rightarrow> c) + 1) (nextWords w)\<rparr>) wm)"
  | (created) n wm where "s = (n, wm)" "map_of wm c = None" "c \<notin> fst ` set wm"
      "length wm < MAX_WORDS"
      "addPair rnd c x s = (n + 2, AList.update c
          \<lparr>word = c, frequency = 1, hue = rnd n, saturation = 0.5 + rnd (n + 1) * 0.5,
           nextWords = [(x, 1)]\<rparr> wm)"
  | (dropped) n wm where "s = (n, wm)" "map_of wm c = None" "c \<notin> fst ` set wm"
      "\<not> length wm < MAX_WORDS" "addPair rnd c x s = s"
proof (cases s)
  case (Pair n wm)
  show ?thesis
  proof (cases "map_of wm c")
    case None
    then have "c \<notin> fst ` set wm" by (simp add: map_of_eq_None_iff)
    with None Pair created dropped show ?thesis
      by (cases "length wm < MAX_WORDS") (simp_all add: addPair_def)
  next
    case (Some w)
    then have "(c, w) \<in> set wm" by (rule map_of_SomeD)
    then have "(c, w) \<in> set wm \<and> c \<in> fst ` set wm" by force
    with Some Pair existing show ?thesis by (simp add: addPair_def)
  qed
qed

lemma addPair_length_mono: "length (snd s) \<le> length (snd (addPair rnd c x s))"
  by (rule addPair_cases [where s=s and c=c and rnd=rnd and x=x]) (auto simp: length_update)

lemma addPair_length_bound:
  "length (snd s) \<le> MAX_WORDS \<Longrightarrow> length (snd (addPair rnd c x s)) \<le> MAX_WORDS"
  by (rule addPair_cases [where s=s and c=c and rnd=rnd and x=x]) (auto simp: length_update)

lemma addPair_keys_mono: "fst ` set (snd s) \<subseteq> fst ` set (snd (addPair rnd c x s))"
  by (rule addPair_cases [where s=s and c=c and rnd=rnd and x=x]) (auto simp: dom_update)

lemma ball_update:
  "\<forall>e \<in> set al. P (snd e) \<Longrightarrow> P v \<Longrightarrow> \<forall>e \<in> set (AList.update k v al). P (snd e)"
  using set_update_subset [of k v al] by auto

lemma addPair_word_inv:
  assumes "\<forall>e \<in> set (snd s). word_inv (snd e)"
  shows "\<forall>e \<in> set (snd (addPair rnd c x s)). word_inv (snd e)"
proof (rule addPair_cases [where s=s and c=c and rnd=rnd and x=x], goal_cases)
  case existing: (1 n wm w)
  have "word_inv w" using assms existing(1,3) by auto
  then have "word_inv (w\<lparr>frequency := frequency w + 1,
             nextWords := AList.update x
               ((case map_of (nextWords w) x of None \<Rightarrow> 0 | Some c \<Rightarrow> c) + 1) (nextWords w)\<rparr>)"
    using sum_update [of x "nextWords w"] by (simp add: word_inv_def successor_total_def)
  then show ?thesis using assms existing by (simp add: ball_update)
next
  case created: (2 n wm)
  have "word_inv \<lparr>word = c, frequency = 1, hue = rnd n, saturation = 0.5 + rnd (n + 1) * 0.5,
           nextWords = [(x, 1)]\<rparr>"
    by (simp add: word_inv_def successor_total_def)
  then show ?thesis using assms created by (simp add: ball_update)
next
  case dropped: (3 n wm)
  then show ?thesis using assms by simp
qed

lemma registry_inv_addPair: "registry_inv (snd s) \<Longrightarrow> registry_inv (snd (addPair rnd c x s))"
  unfolding registry_inv_def
  using key_inv_addPair addPair_length_bound addPair_word_inv by blast

lemma registry_inv_loop: "registry_inv (snd s) \<Longrightarrow> registry_inv (snd (addWords_loop rnd ts i s))"
  unfolding addWords_loop_fold
  by (rule fold_invariant [where P = "\<lambda>s. registry_inv (snd s)"]) (auto intro: registry_inv_addPair)

lemma loop_length_mono: "length (snd s) \<le> length (snd (addWords_loop rnd ts i s))"
  unfolding addWords_loop_fold
  by (rule fold_invariant [where P = "\<lambda>s'. length (snd s) \<le> length (snd s')"])
     (auto intro: order_trans addPair_length_mono)

lemma loop_keys_mono: "fst ` set (snd s) \<subseteq> fst ` set (snd (addWords_loop rnd ts i s))"
  unfolding addWords_loop_fold
  by (rule fold_invariant [where P = "\<lambda>s'. fst ` set (snd s) \<subseteq> fst ` set (snd s')"])
     (use addPair_keys_mono in blast)+

lemma registry_inv_of_words:
  "words_inv ws \<Longrightarrow> registry_inv (map (\<lambda>w. (word w, w)) ws)"
  by (auto simp: words_inv_def registry_inv_def key_inv_def comp_def)

lemma map_word_snd: "key_inv wm \<Longrightarrow> map word (map snd wm) = map fst wm"
  by (auto simp: key_inv_def)

lemma words_inv_of_registry:
  assumes "registry_inv wm"
  shows "words_inv (sort_by_frequency (map snd wm))"
proof -
  have k: "map word (map snd wm) = map fst wm"
    using assms by (simp add: registry_inv_def key_inv_def)
  have d: "distinct (map word (map snd wm))"
    using assms unfolding k by (simp add: registry_inv_def key_inv_def)
  then have "distinct (map snd wm) \<and> inj_on word (set (map snd wm))"
    by (simp only: distinct_map)
  then have "distinct (map word (sort_by_frequency (map snd wm)))"
    unfolding sort_by_frequency_def by (simp add: distinct_map)
  moreover have "length (sort_by_frequency (map snd wm)) \<le> MAX_WORDS"
    using assms by (simp add: sort_by_frequency_def registry_inv_def)
  moreover have "\<forall>w \<in> set (sort_by_frequency (map snd wm)). word_inv w"
    using assms by (auto simp: sort_by_frequency_def registry_inv_def)
  ultimately show ?thesis by (simp add: words_inv_def)
qed

lemma addWords_unfold:
  "distinct (map word ws) \<Longrightarrow>
   addWords rnd n ts ws =
     (fst (addWords_loop rnd ts 0 (n, map (\<lambda>w. (word w, w)) ws)),
      sort_by_frequency (map snd (snd (addWords_loop rnd ts 0 (n, map (\<lambda>w. (word w, w)) ws)))))"
  by (simp add: addWords_def new_Map_words split: prod.splits)

lemma words_inv_addWords: "words_inv ws \<Longrightarrow> words_inv (snd (addWords rnd n ts ws))"
proof -
  assume a: "words_inv ws"
  then have d: "distinct (map word ws)" by (simp add: words_inv_def)
  have "registry_inv (snd (addWords_loop rnd ts 0 (n, map (\<lambda>w. (word w, w)) ws)))"
    using registry_inv_loop [of "(n, map (\<lambda>w. (word w, w)) ws)"] registry_inv_of_words [OF a] by simp
  then show ?thesis by (simp add: addWords_unfold [OF d] words_inv_of_registry)
qed

lemma reachable_words_inv: "reachable ws \<Longrightarrow> words_inv ws"
proof (induction rule: reachable.induct)
  case reachable_init
  show ?case by (simp add: words_inv_def)
next
  case (reachable_addWords ws rnd n newWords)
  from reachable_addWords.IH show ?case by (rule words_inv_addWords)
qed

section \<open>The three batches of the example\<close>

lemma run3_value:
  "run3 rnd =
     [\<lparr>word = ''a'', frequency = 5, hue = rnd 0, saturation = 0.5 + rnd 1 * 0.5,
        nextWords = [(''b'', 5)]\<rparr>,
      \<lparr>word = ''b'', frequency = 2, hue = rnd 2, saturation = 0.5 + rnd 3 * 0.5,
        nextWords = [(''a'', 2)]\<rparr>]"
  by (simp add: run3_def addWords_def addWords_loop.simps addPair_def new_Map_def
      sort_by_frequency_def MAX_WORDS_def numeral_2_eq_2 numeral_3_eq_3)


text \<open>
  C6. The claim: from the empty registry, the batches \<open>["a","b","a","b"]\<close>,
  \<open>["a","b","a","b"]\<close> and \<open>["a","b"]\<close> leave the word "a" with frequency 3 and
  successors \<open>{"b": 3}\<close>, and "b" is no word of the registry. It fails: "a" does not
  have frequency 3, and "b" is a word of the registry.
\<close>

theorem C6_counterexample:
  "map_option frequency (find_word (run3 rnd0) ''a'') \<noteq> Some 3
   \<and> map_option nextWords (find_word (run3 rnd0) ''a'') \<noteq> Some [(''b'', 3)]
   \<and> find_word (run3 rnd0) ''b'' \<noteq> None"
  by (simp add: run3_value find_word_def)

text \<open>
  C6, amended. Each four-token batch has the pairs (a,b), (b,a), (a,b), so "b" is the
  current token of the middle pair and becomes a word. After the three batches the
  registry is: "a" with frequency 5 and successors \<open>{"b": 5}\<close>, then "b" with
  frequency 2 and successors \<open>{"a": 2}\<close>, whatever the random draws.
\<close>

theorem C6_three_batches:
  "map word (run3 rnd) = [''a'', ''b'']
   \<and> map frequency (run3 rnd) = [5, 2]
   \<and> map_option nextWords (find_word (run3 rnd) ''a'') = Some [(''b'', 5)]
   \<and> map_option nextWords (find_word (run3 rnd) ''b'') = Some [(''a'', 2)]"
  by (simp add: run3_value find_word_def)

section \<open>Capacity and growth\<close>

lemma reachable_run1: "reachable run1"
  unfolding run1_def by (rule reachable_addWords [OF reachable_init])

lemma run1_value:
  "run1 = [\<lparr>word = ''a'', frequency = 1, hue = 0, saturation = 0.5, nextWords = [(''b'', 1)]\<rparr>,
           \<lparr>word = ''b'', frequency = 1, hue = 0, saturation = 0.5, nextWords = [(''a'', 1)]\<rparr>]"
  by (simp add: run1_def rnd0_def addWords_def addWords_loop.simps addPair_def new_Map_def
      sort_by_frequency_def MAX_WORDS_def numeral_2_eq_2 numeral_3_eq_3)

lemma reachable_run3: "reachable (run3 rnd)"
  unfolding run3_def by (intro reachable_addWords reachable_init)

lemma addWords_length_mono:
  assumes "distinct (map word ws)"
  shows "length ws \<le> length (snd (addWords rnd n ts ws))"
  using loop_length_mono [of "(n, map (\<lambda>w. (word w, w)) ws)" rnd ts 0]
  by (simp add: addWords_unfold [OF assms] sort_by_frequency_def)

lemma addWords_words_mono:
  assumes "distinct (map word ws)"
  shows "set (map word ws) \<subseteq> set (map word (snd (addWords rnd n ts ws)))"
proof -
  let ?wm = "snd (addWords_loop rnd ts 0 (n, map (\<lambda>w. (word w, w)) ws))"
  have "key_inv (map (\<lambda>w. (word w, w)) ws)"
    using assms by (simp add: key_inv_def comp_def)
  then have "key_inv ?wm"
    using key_inv_loop [of "(n, map (\<lambda>w. (word w, w)) ws)" rnd ts 0] by simp
  then have "word ` snd ` set ?wm = fst ` set ?wm"
    by (force simp: key_inv_def image_iff)
  moreover have "fst ` set (map (\<lambda>w. (word w, w)) ws) \<subseteq> fst ` set ?wm"
    using loop_keys_mono [of "(n, map (\<lambda>w. (word w, w)) ws)" rnd ts 0] by simp
  moreover have "fst ` set (map (\<lambda>w. (word w, w)) ws) = word ` set ws"
    by force
  ultimately show ?thesis
    by (simp add: addWords_unfold [OF assms] sort_by_frequency_def image_image)
qed

text \<open>
  C2. In every state reached from the empty registry by \<open>addWords\<close> calls, the words
  are pairwise different and there are at most \<open>MAX_WORDS\<close> = 100000 of them; one more
  call, with any tokens and any random draws, stays within the bound, does not make
  the registry shorter, and keeps every word that was there.
\<close>

theorem C2_capacity_and_growth:
  assumes "reachable ws"
  shows "distinct (map word ws) \<and> length ws \<le> MAX_WORDS \<and> MAX_WORDS = 100000
         \<and> length (snd (addWords rnd n ts ws)) \<le> MAX_WORDS
         \<and> length ws \<le> length (snd (addWords rnd n ts ws))
         \<and> set (map word ws) \<subseteq> set (map word (snd (addWords rnd n ts ws)))"
proof -
  have inv: "words_inv ws" using assms by (rule reachable_words_inv)
  then have d: "distinct (map word ws)" by (simp add: words_inv_def)
  have "words_inv (snd (addWords rnd n ts ws))" using inv by (rule words_inv_addWords)
  then have "length (snd (addWords rnd n ts ws)) \<le> MAX_WORDS" by (simp add: words_inv_def)
  then show ?thesis
    using inv d addWords_length_mono [OF d] addWords_words_mono [OF d]
    by (simp add: words_inv_def MAX_WORDS_def)
qed

theorem C2_witness:
  "reachable run1 \<and> map word run1 = [''a'', ''b''] \<and> distinct (map word run1)
   \<and> length run1 \<le> MAX_WORDS
   \<and> length (snd (addWords rnd0 2 [''c'', ''a''] run1)) \<le> MAX_WORDS
   \<and> length run1 \<le> length (snd (addWords rnd0 2 [''c'', ''a''] run1))
   \<and> set (map word run1) \<subseteq> set (map word (snd (addWords rnd0 2 [''c'', ''a''] run1)))"
  using C2_capacity_and_growth [OF reachable_run1, of rnd0 2 "[''c'', ''a'']"] reachable_run1
  by (simp add: run1_value)

section \<open>Frequency and successor counts\<close>

text \<open>
  C10. In every state reached from the empty registry by \<open>addWords\<close> calls, the
  frequency of every word is the sum of the counts in its successor table.
\<close>

theorem C10_frequency_is_successor_sum:
  assumes "reachable ws"
  shows "\<forall>w \<in> set ws. frequency w = sum_list (map snd (nextWords w))"
  using reachable_words_inv [OF assms]
  by (simp add: words_inv_def word_inv_def successor_total_def)

theorem C10_witness:
  "reachable (run3 rnd0)
   \<and> map frequency (run3 rnd0) = map (\<lambda>w. sum_list (map snd (nextWords w))) (run3 rnd0)
   \<and> map frequency (run3 rnd0) = [5, 2]"
  using C10_frequency_is_successor_sum [OF reachable_run3 [of rnd0]] reachable_run3 [of rnd0]
  by (simp add: run3_value)

section \<open>The loop body, pair by pair\<close>

lemma addPair_existing:
  "map_of wm c = Some w \<Longrightarrow>
   addPair rnd c x (n, wm) = (n, AList.update c
          (w\<lparr>frequency := frequency w + 1,
             nextWords := AList.update x
               ((case map_of (nextWords w) x of None \<Rightarrow> 0 | Some c \<Rightarrow> c) + 1) (nextWords w)\<rparr>) wm)"
  by (simp add: addPair_def)


lemma addPair_dropped:
  "map_of wm c = None \<Longrightarrow> \<not> length wm < MAX_WORDS \<Longrightarrow> addPair rnd c x (n, wm) = (n, wm)"
  by (simp add: addPair_def)

lemma update_keys_present:
  "map_of al k = Some v \<Longrightarrow> map fst (AList.update k v' al) = map fst al"
  by (induction al) (auto split: if_splits)


lemma update_same: "map_of (AList.update k v al) k = Some v"
  by (simp add: update_conv')


lemma length_full_map: "length full_map = MAX_WORDS"
  by (simp add: full_map_def MAX_WORDS_def)

lemma full_map_fresh: "map_of full_map ''n'' = None"
  by (auto simp: full_map_def numbered_def map_of_eq_None_iff)

lemma full_map_head: "map_of full_map ''w'' = Some (numbered 0)"
  by (simp add: full_map_def)


section \<open>A full registry\<close>

lemma addPair_keys_full:
  assumes "length (snd s) = MAX_WORDS"
  shows "map fst (snd (addPair rnd c x s)) = map fst (snd s)"
proof (rule addPair_cases [where s=s and c=c and rnd=rnd and x=x], goal_cases)
  case (1 n wm w)
  then show ?case by (simp add: update_keys_present)
next
  case (2 n wm)
  then show ?case using assms by simp
next
  case (3 n wm)
  then show ?case by simp
qed

lemma loop_keys_full:
  assumes "length wm = MAX_WORDS"
  shows "map fst (snd (addWords_loop rnd ts i (n, wm))) = map fst wm"
  unfolding addWords_loop_fold
proof (rule fold_invariant [where P = "\<lambda>s. map fst (snd s) = map fst wm"])
  show "map fst (snd (n, wm)) = map fst wm" by simp
next
  fix j and s :: "nat \<times> WordMap"
  assume k: "map fst (snd s) = map fst wm"
  then have "length (snd s) = MAX_WORDS" using assms by (metis length_map)
  then show "map fst (snd (addPair rnd (ts ! j) (ts ! (j + 1)) s)) = map fst wm"
    using k by (simp add: addPair_keys_full)
qed

lemma full_map_fresh_q: "map_of full_map ''q'' = None"
  by (auto simp: full_map_def numbered_def map_of_eq_None_iff)

text \<open>
  The body of the loop on a map that holds exactly \<open>MAX_WORDS\<close> words, and the keys
  of such a map over a whole batch.
\<close>

lemma addPair_full_effect:
  assumes "length wm = MAX_WORDS"
  shows "(map_of wm cur = Some w \<longrightarrow>
            map fst (snd (addPair rnd cur nxt (n, wm))) = map fst wm
            \<and> (\<exists>w'. map_of (snd (addPair rnd cur nxt (n, wm))) cur = Some w'
                  \<and> frequency w' = frequency w + 1
                  \<and> map_of (nextWords w') nxt
                      = Some (case map_of (nextWords w) nxt of None \<Rightarrow> 1 | Some c \<Rightarrow> c + 1)
                  \<and> (map_of (nextWords w) nxt = None \<longrightarrow>
                        map fst (nextWords w') = map fst (nextWords w) @ [nxt])))
         \<and> (map_of wm cur = None \<longrightarrow> addPair rnd cur nxt (n, wm) = (n, wm))
         \<and> map fst (snd (addWords_loop rnd tokens i (n, wm))) = map fst wm"
proof (intro conjI impI)
  assume e: "map_of wm cur = Some w"
  let ?w' = "w\<lparr>frequency := frequency w + 1,
             nextWords := AList.update nxt
               ((case map_of (nextWords w) nxt of None \<Rightarrow> 0 | Some c \<Rightarrow> c) + 1) (nextWords w)\<rparr>"
  have r: "addPair rnd cur nxt (n, wm) = (n, AList.update cur ?w' wm)"
    using e by (rule addPair_existing)
  show "map fst (snd (addPair rnd cur nxt (n, wm))) = map fst wm"
    using e by (simp add: r update_keys_present)
  have "map_of (snd (addPair rnd cur nxt (n, wm))) cur = Some ?w'"
    by (simp add: r update_same)
  moreover have "map_of (nextWords ?w') nxt
                  = Some (case map_of (nextWords w) nxt of None \<Rightarrow> 1 | Some c \<Rightarrow> c + 1)"
    by (simp add: update_same split: option.split)
  moreover have "map_of (nextWords w) nxt = None \<longrightarrow>
                   map fst (nextWords ?w') = map fst (nextWords w) @ [nxt]"
    by (simp add: map_of_eq_None_iff update_append_fresh)
  ultimately show "\<exists>w'. map_of (snd (addPair rnd cur nxt (n, wm))) cur = Some w'
                  \<and> frequency w' = frequency w + 1
                  \<and> map_of (nextWords w') nxt
                      = Some (case map_of (nextWords w) nxt of None \<Rightarrow> 1 | Some c \<Rightarrow> c + 1)
                  \<and> (map_of (nextWords w) nxt = None \<longrightarrow>
                        map fst (nextWords w') = map fst (nextWords w) @ [nxt])"
    by (intro exI [of _ ?w']) simp
next
  assume "map_of wm cur = None"
  then show "addPair rnd cur nxt (n, wm) = (n, wm)"
    using assms by (simp add: addPair_dropped)
next
  show "map fst (snd (addWords_loop rnd tokens i (n, wm))) = map fst wm"
    using assms by (rule loop_keys_full)
qed

section \<open>The order of a snapshot\<close>

lemma addPairs_short: "length xs \<le> Suc 0 \<Longrightarrow> addPairs rnd xs s = s"
  by (induction rnd xs s rule: addPairs.induct) auto

lemma addWords_loop_addPairs: "addWords_loop rnd ts i s = addPairs rnd (drop i ts) s"
proof (induction rnd ts i s rule: addWords_loop.induct)
  case (1 rnd newWords i s)
  show ?case
  proof (cases "i + 1 < length newWords")
    case True
    then have "drop i newWords = newWords ! i # newWords ! (i + 1) # drop (i + 2) newWords"
      by (simp add: Cons_nth_drop_Suc)
    moreover have "drop (i + 1) newWords = newWords ! (i + 1) # drop (i + 2) newWords"
      using True by (simp add: Cons_nth_drop_Suc)
    ultimately show ?thesis
      using True "1.IH" by (subst addWords_loop.simps) simp
  next
    case False
    then have "length (drop i newWords) \<le> Suc 0" by simp
    then have "addPairs rnd (drop i newWords) s = s" by (rule addPairs_short)
    with False show ?thesis by (subst addWords_loop.simps) simp
  qed
qed

lemmas run_simps = addWords_def addWords_loop_addPairs addPair_def new_Map_def
  sort_by_frequency_def MAX_WORDS_def rnd0_def














section \<open>The texture buffer\<close>

lemma round_half_even_numeral [simp]: "round_half_even (numeral n) = numeral n"
  by (simp add: round_half_even_def)

lemma powr_powi: "(2::real) powr of_int k = 2 powi k"
  by (simp add: powr_int power_int_def inverse_eq_divide power_one_over)

text \<open>The rounding of a number whose binade is known.\<close>

lemma round_binary_binade:
  assumes "2 powi k \<le> \<bar>x\<bar>" "\<bar>x\<bar> < 2 powi (k + 1)" "emin \<le> k"
  shows "round_binary p emin x
           = of_int (round_half_even (x / 2 powi (k - int p + 1))) * 2 powi (k - int p + 1)"
proof -
  have "0 < (2::real) powi k" by (simp add: power_int_def)
  then have pos: "0 < \<bar>x\<bar>" using assms(1) by linarith
  then have "x \<noteq> 0" by simp
  moreover have "(2::real) powr (real_of_int k + 1) = 2 powi (k + 1)"
    using powr_powi [of "k + 1"] by simp
  then have "\<lfloor>log 2 \<bar>x\<bar>\<rfloor> = k"
    using assms(1,2) pos by (simp add: floor_log_eq_powr_iff powr_powi)
  ultimately show ?thesis using assms(3) by (simp add: round_binary_def max_def)
qed

lemma fround_0 [simp]: "fround 0 = 0"
  by (simp add: fround_def round_binary_def)

lemma fround_1 [simp]: "fround 1 = 1"
  using round_binary_binade [of 0 1 "- 126" 24]
  by (simp add: fround_def power_int_minus_divide)

lemma dround_1 [simp]: "dround 1 = 1"
  using round_binary_binade [of 0 1 "- 1022" 53]
  by (simp add: dround_def power_int_minus_divide)

lemma fround_half [simp]: "fround (1 / 2) = 1 / 2"
  using round_binary_binade [of "- 1" "1 / 2" "- 126" 24]
  by (simp add: fround_def power_int_minus_divide)

lemma dround_two_fifths: "dround (2 / 5) = 3602879701896397 / 9007199254740992"
  using round_binary_binade [of "- 2" "2 / 5" "- 1022" 53]
  by (simp add: dround_def power_int_minus_divide round_half_even_def)

lemma fround_two_fifths:
  "fround (3602879701896397 / 9007199254740992) = 13421773 / 33554432"
  using round_binary_binade [of "- 2" "3602879701896397 / 9007199254740992" "- 126" 24]
  by (simp add: fround_def power_int_minus_divide round_half_even_def)

lemma store_apply: "store a j v k = (if j < BUFFER_LENGTH \<and> k = j then fround v else a k)"
  by (simp add: store_def)

lemma texSubImage2D_whole:
  assumes "j < BUFFER_LENGTH"
  shows "texSubImage2D texture 0 0 TEXTURE_SIZE TEXTURE_SIZE pixels j = pixels j"
proof -
  have "j div 4 < TEXTURE_SIZE * TEXTURE_SIZE"
    using assms by (simp add: BUFFER_LENGTH_def TEXTURE_SIZE_def)
  then have y: "(j div 4) div TEXTURE_SIZE < TEXTURE_SIZE"
    by (simp add: less_mult_imp_div_less)
  have x: "(j div 4) mod TEXTURE_SIZE < TEXTURE_SIZE"
    by (simp add: TEXTURE_SIZE_def)
  have "((j div 4) div TEXTURE_SIZE * TEXTURE_SIZE + (j div 4) mod TEXTURE_SIZE) * 4 + j mod 4 = j"
    by simp
  then show ?thesis using assms x y by (simp add: texSubImage2D_def Let_def)
qed

lemma forEach_write_below:
  "j < index * 4 \<Longrightarrow> forEach_write nw rest index a j = a j"
  by (induction rest arbitrary: index a) (auto simp: store_apply)

lemma forEach_write_beyond:
  "(index + length rest) * 4 \<le> j \<Longrightarrow> forEach_write nw rest index a j = a j"
  by (induction rest arbitrary: index a) (auto simp: store_apply)

lemma forEach_write_cell:
  assumes "r < length rest" "(index + r) * 4 + 3 < BUFFER_LENGTH"
  shows "forEach_write nw rest index a ((index + r) * 4)
           = fround (dround (real (frequency (rest ! r)) / real (max_frequency nw)))
       \<and> forEach_write nw rest index a ((index + r) * 4 + 1) = fround (hue (rest ! r))
       \<and> forEach_write nw rest index a ((index + r) * 4 + 2) = fround (saturation (rest ! r))
       \<and> forEach_write nw rest index a ((index + r) * 4 + 3) = 1"
  using assms
proof (induction rest arbitrary: index a r)
  case Nil
  then show ?case by simp
next
  case (Cons w rest)
  show ?case
  proof (cases r)
    case 0
    then show ?thesis using Cons.prems
      by (simp add: forEach_write_below store_apply)
  next
    case (Suc r')
    then have "r' < length rest" "(index + 1 + r') * 4 + 3 < BUFFER_LENGTH"
      using Cons.prems by simp_all
    from Cons.IH [OF this] show ?thesis using Suc by simp
  qed
qed

lemma max_frequency_Max:
  assumes "ws \<noteq> []"
  shows "max_frequency ws = Max (frequency ` set ws)"
proof -
  have "max_frequency ws = Max (set (0 # map frequency ws))"
    unfolding max_frequency_def by (simp only: Max.set_eq_fold)
  also have "\<dots> = Max (insert 0 (frequency ` set ws))" by simp
  also have "\<dots> = Max (frequency ` set ws)"
    using assms by (subst Max_insert) simp_all
  finally show ?thesis .
qed

text \<open>
  C5. The claim: after an update by \<open>updateWordData\<close>, a cell beyond the word count
  holds the value it held before. It fails: after the update of the first texture
  with the two words of \<open>run1\<close>, the last channel of cell 2 (index 11), which held
  1.0, holds 0.
\<close>

theorem C5_counterexample:
  "length run1 = 2
   \<and> initial_texture rnd0 11 = 1
   \<and> updateWordData True (initial_texture rnd0) run1 11 = 0
   \<and> updateWordData True (initial_texture rnd0) run1 11 \<noteq> initial_texture rnd0 11"
proof -
  have "(11::nat) < BUFFER_LENGTH" by (simp add: BUFFER_LENGTH_def TEXTURE_SIZE_def)
  then have "updateWordData True (initial_texture rnd0) run1 11
               = forEach_write run1 run1 0 new_Float32Array 11"
    by (simp add: updateWordData_def texSubImage2D_whole)
  also have "\<dots> = new_Float32Array 11"
    by (rule forEach_write_beyond) (simp add: run1_value)
  finally show ?thesis by (simp add: run1_value initial_texture_def new_Float32Array_def)
qed

text \<open>
  C5, amended. \<open>updateWordData\<close> fills a new buffer, which starts as zeros, and
  replaces the whole texture by it: after an update every channel of every cell at
  or beyond the word count holds 0, whatever the texture held before. (When the GL
  context or the texture is missing there is no update and nothing changes.)
\<close>

theorem C5_unused_cells_zero:
  "(length newWords \<le> cell \<longrightarrow>
      forEach_write newWords newWords 0 new_Float32Array (cell * 4 + c) = 0)
   \<and> (length newWords \<le> cell \<and> cell < TEXTURE_SIZE * TEXTURE_SIZE \<and> c < 4 \<longrightarrow>
      updateWordData True texture newWords (cell * 4 + c) = 0)
   \<and> updateWordData False texture newWords = texture"
proof (intro conjI impI)
  assume "length newWords \<le> cell"
  then have "forEach_write newWords newWords 0 new_Float32Array (cell * 4 + c)
               = new_Float32Array (cell * 4 + c)"
    by (intro forEach_write_beyond) simp
  then show "forEach_write newWords newWords 0 new_Float32Array (cell * 4 + c) = 0"
    by (simp add: new_Float32Array_def)
next
  assume a: "length newWords \<le> cell \<and> cell < TEXTURE_SIZE * TEXTURE_SIZE \<and> c < 4"
  then have "cell * 4 + c < BUFFER_LENGTH" by (simp add: BUFFER_LENGTH_def)
  then have "updateWordData True texture newWords (cell * 4 + c)
               = forEach_write newWords newWords 0 new_Float32Array (cell * 4 + c)"
    by (simp add: updateWordData_def texSubImage2D_whole)
  also have "\<dots> = new_Float32Array (cell * 4 + c)"
    using a by (intro forEach_write_beyond) simp
  finally show "updateWordData True texture newWords (cell * 4 + c) = 0"
    by (simp add: new_Float32Array_def)
next
  show "updateWordData False texture newWords = texture" by (simp add: updateWordData_def)
qed

theorem C5_witness:
  "length run1 \<le> 2 \<and> (2::nat) < TEXTURE_SIZE * TEXTURE_SIZE \<and> (3::nat) < 4
   \<and> forEach_write run1 run1 0 new_Float32Array (2 * 4 + 3) = 0
   \<and> updateWordData True (initial_texture rnd0) run1 (2 * 4 + 3) = 0"
  using C5_unused_cells_zero [of run1 2 3 "initial_texture rnd0"]
  by (simp add: run1_value TEXTURE_SIZE_def)

text \<open>
  C7. The claim: after the update, cell \<open>r\<close> holds the frequency of word \<open>r\<close> divided
  by the greatest frequency of the snapshot, the word's hue, its saturation, and 1.
  It fails for the numbers that are no 32-bit floats: in the registry of the three
  batches, word 1 has frequency 2 of a maximum of 5, and channel 0 of cell 1 holds
  13421773 / 33554432 (0.4000000059604645), not 2 / 5.
\<close>

theorem C7_counterexample:
  "real (frequency (run3 rnd0 ! 1)) / real (Max (frequency ` set (run3 rnd0))) = 2 / 5
   \<and> updateWordData True (initial_texture rnd0) (run3 rnd0) (1 * 4) = 13421773 / 33554432
   \<and> updateWordData True (initial_texture rnd0) (run3 rnd0) (1 * 4)
        \<noteq> real (frequency (run3 rnd0 ! 1)) / real (Max (frequency ` set (run3 rnd0)))"
proof -
  have q: "real (frequency (run3 rnd0 ! 1)) / real (Max (frequency ` set (run3 rnd0))) = 2 / 5"
    by (simp add: run3_value)
  have "(4::nat) < BUFFER_LENGTH" by (simp add: BUFFER_LENGTH_def TEXTURE_SIZE_def)
  then have "updateWordData True (initial_texture rnd0) (run3 rnd0) 4
               = forEach_write (run3 rnd0) (run3 rnd0) 0 new_Float32Array 4"
    by (simp add: updateWordData_def texSubImage2D_whole)
  also have "\<dots> = fround (dround (2 / 5))"
    by (simp add: run3_value store_apply max_frequency_def BUFFER_LENGTH_def TEXTURE_SIZE_def)
  also have "\<dots> = 13421773 / 33554432"
    by (simp only: dround_two_fifths fround_two_fifths)
  finally have v: "updateWordData True (initial_texture rnd0) (run3 rnd0) (1 * 4)
                     = 13421773 / 33554432"
    by simp
  show ?thesis unfolding q v by simp
qed

text \<open>
  C7, amended. For a snapshot \<open>ws\<close> whose frequencies are at least 1 and whose hues
  and saturations lie in [0, 1], and a rank \<open>r\<close> below its length (and below the
  number of cells): after the update, cell \<open>r\<close> holds the 64-bit quotient of the
  frequency of word \<open>r\<close> by the greatest frequency of the snapshot, the word's hue and
  its saturation, each rounded to a 32-bit float, and 1; and when word 0 has the
  greatest frequency, the first number of cell 0 is exactly 1.
\<close>

theorem C7_encoded_cell_float32:
  assumes "r < length ws" "r < TEXTURE_SIZE * TEXTURE_SIZE"
    "\<forall>w \<in> set ws. 1 \<le> frequency w \<and> 0 \<le> hue w \<and> hue w \<le> 1
                    \<and> 0 \<le> saturation w \<and> saturation w \<le> 1"
  shows "updateWordData True texture ws (r * 4)
           = fround (dround (real (frequency (ws ! r)) / real (Max (frequency ` set ws))))
       \<and> updateWordData True texture ws (r * 4 + 1) = fround (hue (ws ! r))
       \<and> updateWordData True texture ws (r * 4 + 2) = fround (saturation (ws ! r))
       \<and> updateWordData True texture ws (r * 4 + 3) = 1
       \<and> (frequency (ws ! 0) = Max (frequency ` set ws) \<longrightarrow>
            updateWordData True texture ws 0 = 1)"
proof -
  have ne: "ws \<noteq> []" using assms(1) by auto
  have b: "(0 + r) * 4 + 3 < BUFFER_LENGTH" using assms(2) by (simp add: BUFFER_LENGTH_def)
  have b0: "(0 + 0) * 4 + 3 < BUFFER_LENGTH" by (simp add: BUFFER_LENGTH_def TEXTURE_SIZE_def)
  have whole: "\<And>j. j \<le> r * 4 + 3 \<Longrightarrow>
      updateWordData True texture ws j = forEach_write ws ws 0 new_Float32Array j"
    using b by (simp add: updateWordData_def texSubImage2D_whole)
  note cell = forEach_write_cell [OF assms(1) b, of ws new_Float32Array]
  have "ws ! 0 \<in> set ws" using ne by simp
  then have pos: "0 < frequency (ws ! 0)" using assms(3) by force
  have "0 < length ws" using ne by simp
  note cell0 = forEach_write_cell [OF this b0, of ws new_Float32Array]
  have first: "frequency (ws ! 0) = Max (frequency ` set ws) \<longrightarrow>
            updateWordData True texture ws 0 = 1"
    using cell0 pos whole [of 0] by (simp add: max_frequency_Max [OF ne])
  show ?thesis
    using cell whole first by (simp add: max_frequency_Max [OF ne])
qed

theorem C7_witness:
  "(1::nat) < length (run3 rnd0) \<and> (1::nat) < TEXTURE_SIZE * TEXTURE_SIZE
   \<and> list_all (\<lambda>w. 1 \<le> frequency w \<and> 0 \<le> hue w \<and> hue w \<le> 1
                     \<and> 0 \<le> saturation w \<and> saturation w \<le> 1) (run3 rnd0)
   \<and> frequency (run3 rnd0 ! 0) = Max (frequency ` set (run3 rnd0))
   \<and> updateWordData True (initial_texture rnd0) (run3 rnd0) 0 = 1
   \<and> updateWordData True (initial_texture rnd0) (run3 rnd0) (1 * 4) = 13421773 / 33554432
   \<and> updateWordData True (initial_texture rnd0) (run3 rnd0) (1 * 4 + 1) = 0
   \<and> updateWordData True (initial_texture rnd0) (run3 rnd0) (1 * 4 + 2) = 1 / 2
   \<and> updateWordData True (initial_texture rnd0) (run3 rnd0) (1 * 4 + 3) = 1"
proof -
  have h: "(1::nat) < length (run3 rnd0)" "(1::nat) < TEXTURE_SIZE * TEXTURE_SIZE"
    "\<forall>w \<in> set (run3 rnd0). 1 \<le> frequency w \<and> 0 \<le> hue w \<and> hue w \<le> 1
                    \<and> 0 \<le> saturation w \<and> saturation w \<le> 1"
    by (simp_all add: run3_value TEXTURE_SIZE_def rnd0_def)
  have m: "Max (frequency ` set (run3 rnd0)) = 5" "frequency (run3 rnd0 ! 0) = 5"
    "frequency (run3 rnd0 ! 1) = 2" "hue (run3 rnd0 ! 1) = 0" "saturation (run3 rnd0 ! 1) = 1 / 2"
    by (simp_all add: run3_value rnd0_def)
  have v: "fround (dround (real 2 / real 5)) = 13421773 / 33554432"
    by (simp add: dround_two_fifths fround_two_fifths)
  note T = C7_encoded_cell_float32 [OF h, of "initial_texture rnd0"]
  have c: "updateWordData True (initial_texture rnd0) (run3 rnd0) 0 = 1"
    "updateWordData True (initial_texture rnd0) (run3 rnd0) (1 * 4) = 13421773 / 33554432"
    "updateWordData True (initial_texture rnd0) (run3 rnd0) (1 * 4 + 1) = 0"
    "updateWordData True (initial_texture rnd0) (run3 rnd0) (1 * 4 + 2) = 1 / 2"
    "updateWordData True (initial_texture rnd0) (run3 rnd0) (1 * 4 + 3) = 1"
    using T v unfolding m by simp_all
  show ?thesis using h m c by (simp add: list_all_iff)
qed

section \<open>The greedy walk\<close>

lemma hd_sort_key:
  assumes "xs \<noteq> []"
  shows "hd (sort_key f xs) \<in> set xs \<and> (\<forall>y \<in> set xs. f (hd (sort_key f xs)) \<le> f y)
       \<and> hd (sort_key f xs) = hd (filter (\<lambda>y. f y = f (hd (sort_key f xs))) xs)"
proof -
  let ?ys = "sort_key f xs"
  have ne: "?ys \<noteq> []" using assms by (metis length_0_conv length_sort)
  then obtain h t where ys: "?ys = h # t" by (cases ?ys) auto
  have sx: "set xs = insert h (set t)"
    using ys by (metis list.simps(15) set_sort)
  have "sorted (map f ?ys)" by (rule sorted_sort_key)
  then have "\<forall>y \<in> set t. f h \<le> f y" unfolding ys by auto
  then have le: "\<forall>y \<in> set xs. f h \<le> f y" unfolding sx by simp
  have "filter (\<lambda>y. f y = f h) xs = filter (\<lambda>y. f y = f h) ?ys"
    by (simp only: sort_key_stable)
  also have "\<dots> = h # filter (\<lambda>y. f y = f h) t" unfolding ys by simp
  finally have "hd (filter (\<lambda>y. f y = f h) xs) = h" by simp
  moreover have "h \<in> set xs" unfolding sx by simp
  ultimately show ?thesis using le by (simp add: ys)
qed

lemma best_successor_first_max:
  assumes "entries \<noteq> []"
  shows "best_successor entries
           = fst (hd (filter (\<lambda>e. snd e = Max (snd ` set entries)) entries))"
proof -
  let ?f = "\<lambda>e :: string \<times> nat. - int (snd e)"
  let ?h = "hd (sort_key ?f entries)"
  note H = hd_sort_key [OF assms, of ?f]
  have "\<forall>y \<in> set entries. snd y \<le> snd ?h" using H by auto
  moreover have "snd ?h \<in> snd ` set entries" using H by blast
  ultimately have m: "Max (snd ` set entries) = snd ?h"
    by (intro Max_eqI) auto
  have "?h = hd (filter (\<lambda>y. ?f y = ?f ?h) entries)" using H by blast
  also have "(\<lambda>y. ?f y = ?f ?h) = (\<lambda>e. snd e = Max (snd ` set entries))"
    unfolding m by auto
  finally show ?thesis by (simp add: best_successor_def)
qed

lemma find_word_counts:
  assumes "map counts ws = map counts ws'"
  shows "map_option counts (find_word ws c) = map_option counts (find_word ws' c)"
  using assms
proof (induction ws arbitrary: ws')
  case Nil
  then show ?case by (simp add: find_word_def)
next
  case (Cons w ws)
  then obtain w' t where ws': "ws' = w' # t" by (cases ws') auto
  with Cons.prems have c: "counts w = counts w'" and t: "map counts ws = map counts t" by simp_all
  from c have "word w = word w'" by (simp add: counts_def)
  then show ?case using Cons.IH [OF t] c by (simp add: ws' find_word_def)
qed

lemma walk_counts:
  assumes "map counts ws = map counts ws'"
  shows "walk k ws c = walk k ws' c"
proof (induction k arbitrary: c)
  case 0
  show ?case by simp
next
  case (Suc k)
  note F = find_word_counts [OF assms, of c]
  show ?case
  proof (cases "find_word ws c")
    case None
    then have "find_word ws' c = None" using F by simp
    with None show ?thesis by simp
  next
    case (Some w)
    then obtain w' where s': "find_word ws' c = Some w'" and "counts w = counts w'"
      using F by (cases "find_word ws' c") auto
    then have "nextWords w = nextWords w'" by (simp add: counts_def)
    then show ?thesis using Some s' Suc.IH by simp
  qed
qed

lemma map_insort_key:
  "map g (insort_key (\<lambda>a. f (g a)) x ys) = insort_key f (g x) (map g ys)"
  by (induction ys) auto

lemma map_sort_key: "map g (sort_key (\<lambda>a. f (g a)) xs) = sort_key f (map g xs)"
  by (induction xs) (auto simp: map_insort_key)

lemma counts_sort_by_frequency:
  "map counts (sort_by_frequency ws) = sort_key (\<lambda>t. - int (fst (snd t))) (map counts ws)"
  using map_sort_key [of counts "\<lambda>t. - int (fst (snd t))" ws]
  by (simp add: sort_by_frequency_def counts_def)

lemma map_apsnd_update:
  "map (apsnd g) (AList.update k v al) = AList.update k (g v) (map (apsnd g) al)"
  by (induction al) auto

lemma map_of_apsnd: "map_of (map (apsnd g) al) k = map_option g (map_of al k)"
  by (induction al) auto

lemma addPair_counts:
  assumes "map (apsnd counts) (snd s1) = map (apsnd counts) (snd s2)"
  shows "map (apsnd counts) (snd (addPair rnd1 c x s1))
           = map (apsnd counts) (snd (addPair rnd2 c x s2))"
proof -
  obtain n1 wm1 where s1: "s1 = (n1, wm1)" by (cases s1)
  obtain n2 wm2 where s2: "s2 = (n2, wm2)" by (cases s2)
  have eq: "map (apsnd counts) wm1 = map (apsnd counts) wm2" using assms s1 s2 by simp
  then have len: "length wm1 = length wm2" by (metis length_map)
  have look: "map_option counts (map_of wm1 c) = map_option counts (map_of wm2 c)"
    using eq by (metis map_of_apsnd)
  show ?thesis
  proof (cases "map_of wm1 c")
    case None
    then have "map_of wm2 c = None" using look by simp
    with None show ?thesis using eq len
      by (simp add: s1 s2 addPair_def map_apsnd_update counts_def)
  next
    case (Some w1)
    then obtain w2 where w2: "map_of wm2 c = Some w2" and "counts w1 = counts w2"
      using look by (cases "map_of wm2 c") auto
    then have "frequency w1 = frequency w2" "nextWords w1 = nextWords w2" "word w1 = word w2"
      by (simp_all add: counts_def)
    then show ?thesis using Some w2 eq
      by (simp add: s1 s2 addPair_def map_apsnd_update counts_def)
  qed
qed

lemma fold_related:
  "R s1 s2 \<Longrightarrow> (\<And>x a b. R a b \<Longrightarrow> R (f1 x a) (f2 x b)) \<Longrightarrow> R (fold f1 xs s1) (fold f2 xs s2)"
  by (induction xs arbitrary: s1 s2) auto

lemma loop_counts:
  "map (apsnd counts) (snd (addWords_loop rnd1 ts i (n1, wm)))
     = map (apsnd counts) (snd (addWords_loop rnd2 ts i (n2, wm)))"
  unfolding addWords_loop_fold
  by (rule fold_related
      [where R = "\<lambda>s1 s2. map (apsnd counts) (snd s1) = map (apsnd counts) (snd s2)"])
     (auto intro: addPair_counts)

lemma addWords_snd:
  "snd (addWords rnd n ts ws)
     = sort_by_frequency
         (map snd (snd (addWords_loop rnd ts 0 (n, new_Map (map (\<lambda>w. (word w, w)) ws)))))"
  by (simp add: addWords_def split: prod.splits)

lemma addWords_counts:
  "map counts (snd (addWords rnd1 n1 ts ws)) = map counts (snd (addWords rnd2 n2 ts ws))"
proof -
  let ?wm = "new_Map (map (\<lambda>w. (word w, w)) ws)"
  have "map snd (map (apsnd counts) (snd (addWords_loop rnd1 ts 0 (n1, ?wm))))
          = map snd (map (apsnd counts) (snd (addWords_loop rnd2 ts 0 (n2, ?wm))))"
    by (simp only: loop_counts [of rnd1 ts 0 n1 ?wm rnd2 n2])
  then have "map counts (map snd (snd (addWords_loop rnd1 ts 0 (n1, ?wm))))
          = map counts (map snd (snd (addWords_loop rnd2 ts 0 (n2, ?wm))))"
    by (simp add: comp_def)
  then show ?thesis
    by (simp only: addWords_snd counts_sort_by_frequency)
qed

lemma seen_words_counts:
  assumes "map counts u1 = map counts u2"
  shows "map counts (seen_words eager ws u1) = map counts (seen_words eager ws u2)"
proof (cases eager)
  case False
  then show ?thesis by (simp add: seen_words_def)
next
  case True
  have "counts (case find_word u1 k of Some u \<Rightarrow> u | None \<Rightarrow> w)
          = counts (case find_word u2 k of Some u \<Rightarrow> u | None \<Rightarrow> w)" for k w
    using find_word_counts [OF assms, of k]
    by (cases "find_word u1 k"; cases "find_word u2 k") auto
  then show ?thesis using True by (simp add: seen_words_def)
qed

text \<open>
  The walk itself draws no random number: for the same array \<open>words\<close>, the same tokens
  and the same scheduling of the updater, two runs with any two random sources give the
  same output. A step of the walk from \<open>cur\<close>, when \<open>cur\<close> is found and has
  successors, takes the first entry, in the iteration order of the successor table,
  among those with the greatest count, and goes on from it; when \<open>cur\<close> is not found
  the walk ends.
\<close>

lemma walk_random_free:
  "snd (processInput eager rnd1 n1 words tokens) = snd (processInput eager rnd2 n2 words tokens)
   \<and> (find_word ws cur = Some wd \<and> nextWords wd \<noteq> [] \<longrightarrow>
        walk (Suc k) ws cur
          = fst (hd (filter (\<lambda>e. snd e = Max (snd ` set (nextWords wd))) (nextWords wd)))
            # walk k ws
                (fst (hd (filter (\<lambda>e. snd e = Max (snd ` set (nextWords wd))) (nextWords wd)))))
   \<and> (find_word ws cur = None \<longrightarrow> walk (Suc k) ws cur = [])"
proof (intro conjI impI)
  have "map counts (snd (addWords rnd1 n1 (take 10 tokens) words))
          = map counts (snd (addWords rnd2 n2 (take 10 tokens) words))"
    by (rule addWords_counts)
  then have "map counts (seen_words eager words (snd (addWords rnd1 n1 (take 10 tokens) words)))
          = map counts (seen_words eager words (snd (addWords rnd2 n2 (take 10 tokens) words)))"
    by (rule seen_words_counts)
  then have "walk 10 (seen_words eager words (snd (addWords rnd1 n1 (take 10 tokens) words))) c
          = walk 10 (seen_words eager words (snd (addWords rnd2 n2 (take 10 tokens) words))) c"
    for c by (rule walk_counts)
  then show "snd (processInput eager rnd1 n1 words tokens)
               = snd (processInput eager rnd2 n2 words tokens)"
    by (simp add: processInput_def Let_def)
next
  assume "find_word ws cur = Some wd \<and> nextWords wd \<noteq> []"
  then show "walk (Suc k) ws cur
          = fst (hd (filter (\<lambda>e. snd e = Max (snd ` set (nextWords wd))) (nextWords wd)))
            # walk k ws
                (fst (hd (filter (\<lambda>e. snd e = Max (snd ` set (nextWords wd))) (nextWords wd))))"
    by (simp add: best_successor_first_max)
next
  assume "find_word ws cur = None"
  then show "walk (Suc k) ws cur = []" by simp
qed


lemma light_words_value:
  "light_words rnd0 =
     [\<lparr>word = ''light'', frequency = 2, hue = 0, saturation = 0.5, nextWords = [(''based'', 2)]\<rparr>,
      based_word,
      \<lparr>word = ''neural'', frequency = 1, hue = 0, saturation = 0.5,
         nextWords = [(''network'', 1)]\<rparr>,
      \<lparr>word = ''network'', frequency = 1, hue = 0, saturation = 0.5,
         nextWords = [(''light'', 1)]\<rparr>]"
  by (simp add: light_words_def based_word_def run_simps)

lemma light_walk:
  "walk 10 (light_words rnd0) ''light''
     = [''based'', ''neural'', ''network'', ''light'', ''based'', ''neural'', ''network'',
        ''light'', ''based'', ''neural'']"
  by (simp add: light_words_value based_word_def find_word_def best_successor_def
      eval_nat_numeral)

lemma walk_random_free_example:
  "find_word (light_words rnd0) ''based'' = Some based_word
   \<and> nextWords based_word \<noteq> []
   \<and> walk (Suc 1) (light_words rnd0) ''based''
        = ''neural'' # walk 1 (light_words rnd0) ''neural''
   \<and> find_word (light_words rnd0) ''system'' = None
   \<and> walk (Suc 0) (light_words rnd0) ''system'' = []
   \<and> snd (processInput False rnd0 8 (light_words rnd0) [''light''])
        = snd (processInput False rnd_half 3 (light_words rnd0) [''light''])
   \<and> snd (processInput False rnd0 8 (light_words rnd0) [''light''])
        = [''based'', ''neural'', ''network'', ''light'', ''based'', ''neural'', ''network'',
           ''light'', ''based'', ''neural'']"
proof -
  have a: "find_word (light_words rnd0) ''based'' = Some based_word"
    "nextWords based_word \<noteq> []" "find_word (light_words rnd0) ''system'' = None"
    by (simp_all add: light_words_value find_word_def based_word_def)
  have m: "fst (hd (filter (\<lambda>e. snd e = Max (snd ` set (nextWords based_word)))
                      (nextWords based_word))) = ''neural''"
    by (simp add: based_word_def)
  have o: "snd (processInput False rnd0 8 (light_words rnd0) [''light''])
        = [''based'', ''neural'', ''network'', ''light'', ''based'', ''neural'', ''network'',
           ''light'', ''based'', ''neural'']"
    by (simp add: processInput_def Let_def seen_words_def light_walk)
  note T = walk_random_free [where ws = "light_words rnd0" and cur = "''based''"
      and wd = based_word and k = 1 and eager = False and ?rnd1.0 = rnd0 and ?n1.0 = 8
      and ?rnd2.0 = rnd_half and ?n2.0 = 3 and words = "light_words rnd0" and tokens = "[''light'']"]
  note U = walk_random_free [where ws = "light_words rnd0" and cur = "''system''" and k = 0]
  have w: "walk (Suc 1) (light_words rnd0) ''based''
        = ''neural'' # walk 1 (light_words rnd0) ''neural''"
    using T a unfolding m by blast
  have d: "snd (processInput False rnd0 8 (light_words rnd0) [''light''])
        = snd (processInput False rnd_half 3 (light_words rnd0) [''light''])"
    using T by blast
  have e: "walk (Suc 0) (light_words rnd0) ''system'' = []"
    using U a by blast
  show ?thesis using a w d e o by simp
qed

section \<open>What the walk reads\<close>

lemma find_word_None: "find_word ws k = None \<longleftrightarrow> k \<notin> set (map word ws)"
  by (auto simp: find_word_def find_None_iff)

lemma find_word_Some: "find_word ws k = Some u \<Longrightarrow> word u = k"
  by (auto simp: find_word_def find_Some_iff)

lemma seen_words_words: "map word (seen_words eager ws u) = map word ws"
  by (auto simp: seen_words_def dest: find_word_Some split: option.splits)

lemma walk_Nil: "walk k [] c = []"
  by (cases k) (simp_all add: find_word_def)

lemma find_word_Nil: "find_word [] k = None"
  by (simp add: find_word_def)

lemma seen_words_Nil: "seen_words eager [] u = []"
  by (simp add: seen_words_def)

lemma processInput_fst:
  "fst (processInput eager rnd n words tokens) = addWords rnd n (take 10 tokens) words"
  by (simp add: processInput_def Let_def)

lemma processInput_fresh: "snd (processInput eager rnd n [] tokens) = []"
  by (simp add: processInput_def Let_def walk_Nil seen_words_Nil)

text \<open>
  C4. \<open>processInput\<close> feeds the seed to \<open>addWords\<close> and then walks over the array
  \<open>words\<close> of its closure, which the seed's ingestion does not replace: the lookups
  of the walk do not observe the registry with the seed's updates. On the empty
  registry the seed a, a creates the word "a" with successor "a", on which a
  walk from "a" gives "a" ten times; \<open>processInput\<close> gives the empty output,
  however React schedules the updater. For the seed a, b, the word "a" made by
  the seed is in the next state and is not among the words the walk reads.
\<close>

theorem C4_walk_misses_seed:
  "find_word (snd (fst (processInput False rnd0 0 [] [''a'', ''a'']))) ''a'' \<noteq> None
   \<and> walk 10 (snd (fst (processInput False rnd0 0 [] [''a'', ''a'']))) ''a''
        = [''a'', ''a'', ''a'', ''a'', ''a'', ''a'', ''a'', ''a'', ''a'', ''a'']
   \<and> snd (processInput False rnd0 0 [] [''a'', ''a'']) = []
   \<and> snd (processInput True rnd0 0 [] [''a'', ''a'']) = []
   \<and> find_word (snd (fst (processInput False rnd0 0 [] [''a'', ''b'']))) ''a'' \<noteq> None
   \<and> find_word (seen_words False [] (snd (fst (processInput False rnd0 0 [] [''a'', ''b''])))) ''a''
        = None
   \<and> find_word (seen_words True [] (snd (fst (processInput True rnd0 0 [] [''a'', ''b''])))) ''a''
        = None"
proof -
  have aa: "snd (fst (processInput False rnd0 0 [] [''a'', ''a''])) = seed_aa"
    by (simp add: processInput_fst seed_aa_def run_simps)
  have ab: "snd (fst (processInput eager rnd0 0 [] [''a'', ''b'']))
              = [\<lparr>word = ''a'', frequency = 1, hue = 0, saturation = 0.5,
                   nextWords = [(''b'', 1)]\<rparr>]" for eager
    by (simp add: processInput_fst run_simps)
  have w: "walk 10 seed_aa ''a''
             = [''a'', ''a'', ''a'', ''a'', ''a'', ''a'', ''a'', ''a'', ''a'', ''a'']"
    by (simp add: seed_aa_def find_word_def best_successor_def eval_nat_numeral)
  have f: "find_word seed_aa ''a'' \<noteq> None" by (simp add: seed_aa_def find_word_def)
  have g: "find_word [\<lparr>word = ''a'', frequency = 1, hue = 0, saturation = 0.5,
                          nextWords = [(''b'', 1)]\<rparr>] ''a'' \<noteq> None"
    by (simp add: find_word_def)
  show ?thesis
    unfolding aa ab using g by (simp add: w f processInput_fresh seen_words_Nil find_word_Nil)
qed

section \<open>From the map of the loop to the new array\<close>

lemma find_word_map_of: "map_of (map (\<lambda>w. (word w, w)) ws) k = find_word ws k"
  by (induction ws) (auto simp: find_word_def)

lemma find_word_member:
  assumes "distinct (map word xs)" "w \<in> set xs"
  shows "find_word xs (word w) = Some w"
  using assms
  by (induction xs) (auto simp: find_word_def)

lemma distinct_words_sorted:
  assumes "key_inv wm"
  shows "distinct (map word (sort_by_frequency (map snd wm)))"
proof -
  have k: "map word (map snd wm) = map fst wm" using assms by (rule map_word_snd)
  have "distinct (map word (map snd wm))" using assms unfolding k by (simp add: key_inv_def)
  then have "distinct (map snd wm) \<and> inj_on word (set (map snd wm))"
    by (simp only: distinct_map)
  then show ?thesis unfolding sort_by_frequency_def by (simp add: distinct_map)
qed

lemma find_word_sorted:
  assumes "key_inv wm"
  shows "find_word (sort_by_frequency (map snd wm)) k = map_of wm k"
proof (cases "map_of wm k")
  case None
  then have "k \<notin> fst ` set wm" by (simp add: map_of_eq_None_iff)
  moreover have "word ` snd ` set wm = fst ` set wm"
    using assms by (force simp: key_inv_def image_iff)
  ultimately have "k \<notin> set (map word (sort_by_frequency (map snd wm)))"
    by (simp add: sort_by_frequency_def image_image)
  then show ?thesis using None by (simp add: find_word_None)
next
  case (Some w)
  then have m: "(k, w) \<in> set wm" by (rule map_of_SomeD)
  then have "word w = k" using assms by (force simp: key_inv_def)
  moreover have "w \<in> set (sort_by_frequency (map snd wm))"
    using m by (force simp: sort_by_frequency_def)
  ultimately show ?thesis
    using find_word_member [OF distinct_words_sorted [OF assms], of w] Some by simp
qed

lemma key_inv_entries: "distinct (map word ws) \<Longrightarrow> key_inv (map (\<lambda>w. (word w, w)) ws)"
  by (simp add: key_inv_def comp_def)

lemma addWords_lookup:
  assumes "distinct (map word ws)"
  shows "find_word (snd (addWords rnd n ts ws)) k
           = map_of (snd (addWords_loop rnd ts 0 (n, map (\<lambda>w. (word w, w)) ws))) k"
proof -
  have "key_inv (snd (addWords_loop rnd ts 0 (n, map (\<lambda>w. (word w, w)) ws)))"
    using key_inv_loop [of "(n, map (\<lambda>w. (word w, w)) ws)" rnd ts 0] key_inv_entries [OF assms]
    by simp
  then show ?thesis by (simp add: addWords_unfold [OF assms] find_word_sorted)
qed

lemma addWords_length:
  assumes "distinct (map word ws)"
  shows "length (snd (addWords rnd n ts ws))
           = length (snd (addWords_loop rnd ts 0 (n, map (\<lambda>w. (word w, w)) ws)))"
  by (simp add: addWords_unfold [OF assms] sort_by_frequency_def)

lemma addWords_counter:
  assumes "distinct (map word ws)"
  shows "fst (addWords rnd n ts ws) = fst (addWords_loop rnd ts 0 (n, map (\<lambda>w. (word w, w)) ws))"
  by (simp add: addWords_unfold [OF assms])



section \<open>addWords, pair by pair\<close>







lemma length_full_words: "length full_words = MAX_WORDS"
  by (simp add: full_words_def MAX_WORDS_def)

lemma words_full_words:
  "map word full_words = map (\<lambda>i. CHR ''w'' # replicate i (CHR ''x'')) [0..<MAX_WORDS]"
proof -
  have "0 < MAX_WORDS" by (simp add: MAX_WORDS_def)
  then have "[0..<MAX_WORDS] = 0 # [Suc 0..<MAX_WORDS]" by (rule upt_conv_Cons)
  then show ?thesis by (simp add: full_words_def numbered_def comp_def)
qed

lemma distinct_full_words: "distinct (map word full_words)"
proof -
  have "inj (\<lambda>i. CHR ''w'' # replicate i (CHR ''x''))"
    by (rule injI) (metis length_replicate list.inject)
  then have "inj_on (\<lambda>i. CHR ''w'' # replicate i (CHR ''x'')) (set [0..<MAX_WORDS])"
    by (rule inj_on_subset) simp
  then show ?thesis unfolding words_full_words by (simp add: distinct_map)
qed

lemma full_words_fresh: "find_word full_words ''n'' = None"
  unfolding find_word_None words_full_words by auto

lemma full_words_head: "find_word full_words ''w'' = Some (numbered 0)"
  by (simp add: full_words_def find_word_def numbered_def)

lemma distinct_run1: "distinct (map word run1)"
  by (simp add: run1_value)



section \<open>addWords on a full registry\<close>

lemma addPair_full_lookup:
  assumes "length (snd s) = MAX_WORDS"
  shows "fst (addPair rnd c x s) = fst s"
    and "length (snd (addPair rnd c x s)) = MAX_WORDS"
    and "map_of (snd (addPair rnd c x s)) k
           = (if k = c
              then map_option (\<lambda>w. w\<lparr>frequency := frequency w + 1,
                     nextWords := AList.update x (successor_count w x + 1) (nextWords w)\<rparr>)
                     (map_of (snd s) k)
              else map_of (snd s) k)"
proof -
  obtain n wm where s: "s = (n, wm)" by (cases s)
  have full: "\<not> length wm < MAX_WORDS" and len: "length wm = MAX_WORDS"
    using assms s by simp_all
  have "fst (addPair rnd c x s) = fst s \<and> length (snd (addPair rnd c x s)) = MAX_WORDS
      \<and> map_of (snd (addPair rnd c x s)) k
           = (if k = c
              then map_option (\<lambda>w. w\<lparr>frequency := frequency w + 1,
                     nextWords := AList.update x (successor_count w x + 1) (nextWords w)\<rparr>)
                     (map_of (snd s) k)
              else map_of (snd s) k)"
  proof (cases "map_of wm c")
    case None
    then have "addPair rnd c x (n, wm) = (n, wm)" using full by (rule addPair_dropped)
    then show ?thesis using None len by (simp add: s)
  next
    case (Some w)
    then have "c \<in> fst ` set wm" by (force dest: map_of_SomeD)
    then show ?thesis
      using Some len
      by (simp add: s addPair_existing [OF Some] length_update update_conv' successor_count_def)
  qed
  then show "fst (addPair rnd c x s) = fst s"
    and "length (snd (addPair rnd c x s)) = MAX_WORDS"
    and "map_of (snd (addPair rnd c x s)) k
           = (if k = c
              then map_option (\<lambda>w. w\<lparr>frequency := frequency w + 1,
                     nextWords := AList.update x (successor_count w x + 1) (nextWords w)\<rparr>)
                     (map_of (snd s) k)
              else map_of (snd s) k)"
    by blast+
qed

lemma successor_count_bump:
  "successor_count (w\<lparr>frequency := f, nextWords := AList.update x v (nextWords w)\<rparr>) y
     = (if y = x then v else successor_count w y)"
  by (simp add: successor_count_def update_conv')

lemma addPairs_full_counts:
  assumes "length (snd s) = MAX_WORDS" "map_of (snd s) k = Some w"
  shows "fst (addPairs rnd ts s) = fst s \<and> length (snd (addPairs rnd ts s)) = MAX_WORDS
     \<and> (\<exists>w'. map_of (snd (addPairs rnd ts s)) k = Some w'
           \<and> frequency w' = frequency w + count_list (map fst (zip ts (tl ts))) k
           \<and> (\<forall>x. successor_count w' x
                    = successor_count w x + count_list (zip ts (tl ts)) (k, x))
           \<and> word w' = word w \<and> hue w' = hue w \<and> saturation w' = saturation w)"
  using assms
proof (induction rnd ts s arbitrary: w rule: addPairs.induct)
  case (1 rnd c x rest s)
  let ?s1 = "addPair rnd c x s"
  let ?b = "\<lambda>w. w\<lparr>frequency := frequency w + 1,
                 nextWords := AList.update x (successor_count w x + 1) (nextWords w)\<rparr>"
  note L = addPair_full_lookup [OF "1.prems"(1), of rnd c x]
  let ?w1 = "if k = c then ?b w else w"
  have m1: "map_of (snd ?s1) k = Some ?w1"
    unfolding L(3) using "1.prems"(2) by auto
  from "1.IH" [OF L(2) m1] obtain w' where
    f: "fst (addPairs rnd (x # rest) ?s1) = fst ?s1"
    and l: "length (snd (addPairs rnd (x # rest) ?s1)) = MAX_WORDS"
    and m: "map_of (snd (addPairs rnd (x # rest) ?s1)) k = Some w'"
    and fr: "frequency w' = frequency ?w1 + count_list (map fst (zip (x # rest) (tl (x # rest)))) k"
    and sc: "\<forall>y. successor_count w' y
               = successor_count ?w1 y + count_list (zip (x # rest) (tl (x # rest))) (k, y)"
    and same: "word w' = word ?w1 \<and> hue w' = hue ?w1 \<and> saturation w' = saturation ?w1"
    by blast
  have fr': "frequency w' = frequency w + count_list (map fst (zip (c # x # rest) (tl (c # x # rest)))) k"
    using fr by simp
  have sc': "\<forall>y. successor_count w' y
               = successor_count w y + count_list (zip (c # x # rest) (tl (c # x # rest))) (k, y)"
    using sc by (simp add: successor_count_bump)
  have same': "word w' = word w \<and> hue w' = hue w \<and> saturation w' = saturation w"
    using same by simp
  show ?case
    using f l m fr' sc' same' L(1) by (simp del: count_list.simps zip_Cons_Cons)
next
  case (2 rnd c s)
  then show ?case by simp
next
  case (3 rnd s)
  then show ?case by simp
qed

lemma addWords_full:
  assumes d: "distinct (map word ws)" and len: "length ws = MAX_WORDS"
  shows "fst (addWords rnd n tokens ws) = n"
    and "length (snd (addWords rnd n tokens ws)) = MAX_WORDS"
    and "find_word ws k = None \<Longrightarrow> find_word (snd (addWords rnd n tokens ws)) k = None"
    and "find_word ws k = Some v \<Longrightarrow>
           \<exists>v'. find_word (snd (addWords rnd n tokens ws)) k = Some v'
                 \<and> frequency v' = frequency v + count_list (map fst (zip tokens (tl tokens))) k
                 \<and> (\<forall>x. successor_count v' x
                          = successor_count v x + count_list (zip tokens (tl tokens)) (k, x))
                 \<and> word v' = word v \<and> hue v' = hue v \<and> saturation v' = saturation v"
proof -
  let ?ent = "map (\<lambda>w. (word w, w)) ws"
  let ?r = "addWords_loop rnd tokens 0 (n, ?ent)"
  have lent: "length ?ent = MAX_WORDS" using len by simp
  have keys: "map fst (snd ?r) = map fst ?ent" using lent by (rule loop_keys_full)
  have look: "find_word (snd (addWords rnd n tokens ws)) j = map_of (snd ?r) j" for j
    by (rule addWords_lookup [OF d])
  have r: "?r = addPairs rnd tokens (n, ?ent)" by (simp add: addWords_loop_addPairs)
  show "find_word (snd (addWords rnd n tokens ws)) k = None" if "find_word ws k = None"
  proof -
    from that have "k \<notin> word ` set ws" by (simp add: find_word_None)
    then have "k \<notin> set (map fst (snd ?r))" unfolding keys by simp
    then show ?thesis unfolding look by (simp add: map_of_eq_None_iff)
  qed
  show "\<exists>v'. find_word (snd (addWords rnd n tokens ws)) k = Some v'
                 \<and> frequency v' = frequency v + count_list (map fst (zip tokens (tl tokens))) k
                 \<and> (\<forall>x. successor_count v' x
                          = successor_count v x + count_list (zip tokens (tl tokens)) (k, x))
                 \<and> word v' = word v \<and> hue v' = hue v \<and> saturation v' = saturation v"
    if "find_word ws k = Some v"
  proof -
    from that have "map_of (snd (n, ?ent)) k = Some v" by (simp add: find_word_map_of)
    from addPairs_full_counts [OF _ this, of rnd tokens] lent
    show ?thesis unfolding look r by simp
  qed
  have "length (map fst (snd ?r)) = length (map fst ?ent)" by (simp only: keys)
  then show "length (snd (addWords rnd n tokens ws)) = MAX_WORDS"
    using len by (simp add: addWords_length [OF d])
  show "fst (addWords rnd n tokens ws) = n"
  proof (cases ws)
    case Nil
    then show ?thesis using len by (simp add: MAX_WORDS_def)
  next
    case (Cons v vs)
    then have "map_of (snd (n, ?ent)) (word v) = Some v" by simp
    from addPairs_full_counts [OF _ this, of rnd tokens] lent
    show ?thesis by (simp add: addWords_counter [OF d] r)
  qed
qed

text \<open>
  C9. When the registry holds exactly \<open>MAX_WORDS\<close> words, a batch of \<open>addWords\<close> makes
  no random draw and leaves the registry with the same \<open>MAX_WORDS\<close> words; a word
  \<open>k\<close> of the registry has its frequency raised by the number of pairs of the batch
  whose current token is \<open>k\<close>, and its count for each successor \<open>x\<close> raised by the
  number of pairs \<open>(k, x)\<close>, whether or not \<open>x\<close> is a word of the registry (a
  successor not yet in the table starts from 0); a token that is no word of the
  registry is none afterwards, so the pairs with such a current token are dropped.
  The same for one pair on the map of the loop: the entry of an existing current
  token is updated and a new successor is appended to its table with count 1; a
  pair with an unknown current token changes nothing; the keys stay what they were.
\<close>

theorem C9_full_registry:
  "(length wm = MAX_WORDS \<longrightarrow>
      (map_of wm cur = Some w \<longrightarrow>
            map fst (snd (addPair rnd cur nxt (n, wm))) = map fst wm
            \<and> (\<exists>w'. map_of (snd (addPair rnd cur nxt (n, wm))) cur = Some w'
                  \<and> frequency w' = frequency w + 1
                  \<and> map_of (nextWords w') nxt
                      = Some (case map_of (nextWords w) nxt of None \<Rightarrow> 1 | Some c \<Rightarrow> c + 1)
                  \<and> (map_of (nextWords w) nxt = None \<longrightarrow>
                        map fst (nextWords w') = map fst (nextWords w) @ [nxt])))
         \<and> (map_of wm cur = None \<longrightarrow> addPair rnd cur nxt (n, wm) = (n, wm))
         \<and> map fst (snd (addWords_loop rnd tokens i (n, wm))) = map fst wm)
   \<and> (distinct (map word ws) \<and> length ws = MAX_WORDS \<longrightarrow>
        fst (addWords rnd n tokens ws) = n
        \<and> length (snd (addWords rnd n tokens ws)) = MAX_WORDS
        \<and> set (map word (snd (addWords rnd n tokens ws))) = set (map word ws)
        \<and> (\<forall>k. find_word ws k = None \<longrightarrow> find_word (snd (addWords rnd n tokens ws)) k = None)
        \<and> (\<forall>k v. find_word ws k = Some v \<longrightarrow>
              (\<exists>v'. find_word (snd (addWords rnd n tokens ws)) k = Some v'
                 \<and> frequency v' = frequency v + count_list (map fst (zip tokens (tl tokens))) k
                 \<and> (\<forall>x. successor_count v' x
                          = successor_count v x + count_list (zip tokens (tl tokens)) (k, x))
                 \<and> word v' = word v \<and> hue v' = hue v \<and> saturation v' = saturation v)))"
proof -
  have old: "length wm = MAX_WORDS \<longrightarrow>
      (map_of wm cur = Some w \<longrightarrow>
            map fst (snd (addPair rnd cur nxt (n, wm))) = map fst wm
            \<and> (\<exists>w'. map_of (snd (addPair rnd cur nxt (n, wm))) cur = Some w'
                  \<and> frequency w' = frequency w + 1
                  \<and> map_of (nextWords w') nxt
                      = Some (case map_of (nextWords w) nxt of None \<Rightarrow> 1 | Some c \<Rightarrow> c + 1)
                  \<and> (map_of (nextWords w) nxt = None \<longrightarrow>
                        map fst (nextWords w') = map fst (nextWords w) @ [nxt])))
         \<and> (map_of wm cur = None \<longrightarrow> addPair rnd cur nxt (n, wm) = (n, wm))
         \<and> map fst (snd (addWords_loop rnd tokens i (n, wm))) = map fst wm"
    by (intro impI) (rule addPair_full_effect)
  have new: "(distinct (map word ws) \<and> length ws = MAX_WORDS \<longrightarrow>
        fst (addWords rnd n tokens ws) = n
        \<and> length (snd (addWords rnd n tokens ws)) = MAX_WORDS
        \<and> set (map word (snd (addWords rnd n tokens ws))) = set (map word ws)
        \<and> (\<forall>k. find_word ws k = None \<longrightarrow> find_word (snd (addWords rnd n tokens ws)) k = None)
        \<and> (\<forall>k v. find_word ws k = Some v \<longrightarrow>
              (\<exists>v'. find_word (snd (addWords rnd n tokens ws)) k = Some v'
                 \<and> frequency v' = frequency v + count_list (map fst (zip tokens (tl tokens))) k
                 \<and> (\<forall>x. successor_count v' x
                          = successor_count v x + count_list (zip tokens (tl tokens)) (k, x))
                 \<and> word v' = word v \<and> hue v' = hue v \<and> saturation v' = saturation v)))"
  proof (intro impI)
    assume h: "distinct (map word ws) \<and> length ws = MAX_WORDS"
    then have d: "distinct (map word ws)" and len: "length ws = MAX_WORDS" by simp_all
    note F = addWords_full [OF d len, where rnd = rnd and n = n and tokens = tokens]
    have none: "\<forall>k. find_word ws k = None \<longrightarrow> find_word (snd (addWords rnd n tokens ws)) k = None"
      using F(3) by blast
    have some: "\<forall>k v. find_word ws k = Some v \<longrightarrow>
              (\<exists>v'. find_word (snd (addWords rnd n tokens ws)) k = Some v'
                 \<and> frequency v' = frequency v + count_list (map fst (zip tokens (tl tokens))) k
                 \<and> (\<forall>x. successor_count v' x
                          = successor_count v x + count_list (zip tokens (tl tokens)) (k, x))
                 \<and> word v' = word v \<and> hue v' = hue v \<and> saturation v' = saturation v)"
      using F(4) by blast
    have "find_word (snd (addWords rnd n tokens ws)) k = None \<longleftrightarrow> find_word ws k = None" for k
    proof (cases "find_word ws k")
      case None
      then show ?thesis using none by simp
    next
      case (Some v)
      then obtain v' where "find_word (snd (addWords rnd n tokens ws)) k = Some v'"
        using some by blast
      then show ?thesis using Some by simp
    qed
    then have "k \<in> set (map word (snd (addWords rnd n tokens ws))) \<longleftrightarrow> k \<in> set (map word ws)" for k
      unfolding find_word_None by blast
    then have sets: "set (map word (snd (addWords rnd n tokens ws))) = set (map word ws)" by blast
    show "fst (addWords rnd n tokens ws) = n
        \<and> length (snd (addWords rnd n tokens ws)) = MAX_WORDS
        \<and> set (map word (snd (addWords rnd n tokens ws))) = set (map word ws)
        \<and> (\<forall>k. find_word ws k = None \<longrightarrow> find_word (snd (addWords rnd n tokens ws)) k = None)
        \<and> (\<forall>k v. find_word ws k = Some v \<longrightarrow>
              (\<exists>v'. find_word (snd (addWords rnd n tokens ws)) k = Some v'
                 \<and> frequency v' = frequency v + count_list (map fst (zip tokens (tl tokens))) k
                 \<and> (\<forall>x. successor_count v' x
                          = successor_count v x + count_list (zip tokens (tl tokens)) (k, x))
                 \<and> word v' = word v \<and> hue v' = hue v \<and> saturation v' = saturation v))"
      by (rule conjI [OF F(1) conjI [OF F(2) conjI [OF sets conjI [OF none some]]]])
  qed
  show ?thesis by (rule conjI [OF old new])
qed


theorem C9_witness:
  "length full_map = MAX_WORDS
   \<and> map_of full_map ''w'' = Some (numbered 0)
   \<and> map_of (nextWords (numbered 0)) ''q'' = None
   \<and> map_of full_map ''q'' = None
   \<and> (\<exists>w'. map_of (snd (addPair rnd0 ''w'' ''q'' (0, full_map))) ''w'' = Some w'
         \<and> frequency w' = 2 \<and> map_of (nextWords w') ''q'' = Some 1
         \<and> map fst (nextWords w') = [''z'', ''q''])
   \<and> map_of full_map ''n'' = None
   \<and> addPair rnd0 ''n'' ''w'' (0, full_map) = (0, full_map)
   \<and> map fst (snd (addWords_loop rnd0 [''w'', ''q'', ''n'', ''w''] 0 (0, full_map)))
       = map fst full_map
   \<and> distinct (map word full_words) \<and> length full_words = MAX_WORDS
   \<and> find_word full_words ''w'' = Some (numbered 0)
   \<and> find_word full_words ''n'' = None
   \<and> fst (addWords rnd0 0 [''w'', ''q'', ''n'', ''w'', ''q''] full_words) = 0
   \<and> length (snd (addWords rnd0 0 [''w'', ''q'', ''n'', ''w'', ''q''] full_words)) = MAX_WORDS
   \<and> find_word (snd (addWords rnd0 0 [''w'', ''q'', ''n'', ''w'', ''q''] full_words)) ''n'' = None
   \<and> (\<exists>v'. find_word (snd (addWords rnd0 0 [''w'', ''q'', ''n'', ''w'', ''q''] full_words)) ''w''
               = Some v'
         \<and> frequency v' = 3 \<and> successor_count v' ''q'' = 2 \<and> successor_count v' ''z'' = 1)"
proof -
  let ?ts = "[''w'', ''q'', ''n'', ''w'', ''q'']"
  have q: "map_of (nextWords (numbered 0)) ''q'' = None" by (simp add: numbered_def)
  have f: "frequency (numbered 0) + 1 = 2"
    "(case map_of (nextWords (numbered 0)) ''q'' of None \<Rightarrow> 1 | Some c \<Rightarrow> c + 1) = 1"
    "map fst (nextWords (numbered 0)) @ [''q''] = [''z'', ''q'']"
    by (simp_all add: numbered_def)
  note A = C9_full_registry [where wm = full_map and cur = "''w''" and w = "numbered 0"
      and nxt = "''q''" and n = 0 and rnd = rnd0,
      THEN conjunct1, rule_format, OF length_full_map]
  note C = C9_full_registry [where wm = full_map and cur = "''n''" and nxt = "''w''"
      and n = 0 and rnd = rnd0 and tokens = "[''w'', ''q'', ''n'', ''w'']" and i = 0,
      THEN conjunct1, rule_format, OF length_full_map]
  from A full_map_head q obtain w' where
    "map_of (snd (addPair rnd0 ''w'' ''q'' (0, full_map))) ''w'' = Some w'"
    "frequency w' = frequency (numbered 0) + 1"
    "map_of (nextWords w') ''q''
       = Some (case map_of (nextWords (numbered 0)) ''q'' of None \<Rightarrow> 1 | Some c \<Rightarrow> c + 1)"
    "map fst (nextWords w') = map fst (nextWords (numbered 0)) @ [''q'']"
    by blast
  then have A': "\<exists>w'. map_of (snd (addPair rnd0 ''w'' ''q'' (0, full_map))) ''w'' = Some w'
         \<and> frequency w' = 2 \<and> map_of (nextWords w') ''q'' = Some 1
         \<and> map fst (nextWords w') = [''z'', ''q'']"
    unfolding f by (intro exI [of _ w']) simp
  have C': "addPair rnd0 ''n'' ''w'' (0, full_map) = (0, full_map)"
    and C'': "map fst (snd (addWords_loop rnd0 [''w'', ''q'', ''n'', ''w''] 0 (0, full_map)))
       = map fst full_map"
    using C full_map_fresh by blast+
  have h: "distinct (map word full_words) \<and> length full_words = MAX_WORDS"
    by (simp add: distinct_full_words length_full_words)
  note N = C9_full_registry [where ws = full_words and rnd = rnd0 and n = 0 and tokens = ?ts,
      THEN conjunct2, rule_format, OF h]
  have N1: "fst (addWords rnd0 0 ?ts full_words) = 0"
    and N2: "length (snd (addWords rnd0 0 ?ts full_words)) = MAX_WORDS"
    using N by blast+
  have N3: "find_word (snd (addWords rnd0 0 ?ts full_words)) ''n'' = None"
    using N full_words_fresh by blast
  have g: "frequency (numbered 0) + count_list (map fst (zip ?ts (tl ?ts))) ''w'' = 3"
    "successor_count (numbered 0) ''q'' + count_list (zip ?ts (tl ?ts)) (''w'', ''q'') = 2"
    "successor_count (numbered 0) ''z'' + count_list (zip ?ts (tl ?ts)) (''w'', ''z'') = 1"
    by (simp_all add: numbered_def successor_count_def)
  from N full_words_head obtain v' where
    "find_word (snd (addWords rnd0 0 ?ts full_words)) ''w'' = Some v'"
    "frequency v' = frequency (numbered 0) + count_list (map fst (zip ?ts (tl ?ts))) ''w''"
    "\<forall>x. successor_count v' x
          = successor_count (numbered 0) x + count_list (zip ?ts (tl ?ts)) (''w'', x)"
    by blast
  then have N4: "\<exists>v'. find_word (snd (addWords rnd0 0 ?ts full_words)) ''w'' = Some v'
         \<and> frequency v' = 3 \<and> successor_count v' ''q'' = 2 \<and> successor_count v' ''z'' = 1"
    using g by (intro exI [of _ v']) simp
  show ?thesis
    by (intro conjI length_full_map full_map_head q full_map_fresh_q A' full_map_fresh C' C''
        h [THEN conjunct1] h [THEN conjunct2] full_words_head full_words_fresh N1 N2 N3 N4)
qed

section \<open>The walk and the pending update\<close>

lemma sched_words_value:
  "sched_words =
     [\<lparr>word = ''a'', frequency = 2, hue = 0, saturation = 0.5,
        nextWords = [(''b'', 1), (''c'', 1)]\<rparr>,
      \<lparr>word = ''b'', frequency = 1, hue = 0, saturation = 0.5, nextWords = [(''a'', 1)]\<rparr>]"
  by (simp add: sched_words_def run_simps)

lemma reachable_sched_words: "reachable sched_words"
  unfolding sched_words_def by (intro reachable_addWords reachable_init)

text \<open>
  C8. On the reachable registry \<open>sched_words\<close> and the seed a, c, a, the output of
  \<open>processInput\<close> is "c" when React runs the updater before the walk, and
  b, a, b, a, ... (ten words) when it runs it after: the seed raises the count of
  "c" under "a" to 2 in the very object that the walk reads. The same
  registry and seed give two outputs.
\<close>

theorem C8_scheduling_dependence:
  "reachable sched_words
   \<and> snd (processInput True rnd0 4 sched_words [''a'', ''c'', ''a'']) = [''c'']
   \<and> snd (processInput False rnd0 4 sched_words [''a'', ''c'', ''a''])
        = [''b'', ''a'', ''b'', ''a'', ''b'', ''a'', ''b'', ''a'', ''b'', ''a'']
   \<and> snd (processInput True rnd0 4 sched_words [''a'', ''c'', ''a''])
        \<noteq> snd (processInput False rnd0 4 sched_words [''a'', ''c'', ''a''])"
proof -
  let ?u = "snd (addWords rnd0 4 (take 10 [''a'', ''c'', ''a'']) sched_words)"
  let ?a' = "\<lparr>word = ''a'', frequency = 3, hue = 0, saturation = 0.5,
              nextWords = [(''b'', 1), (''c'', 2)]\<rparr>"
  let ?b = "\<lparr>word = ''b'', frequency = 1, hue = 0, saturation = 0.5, nextWords = [(''a'', 1)]\<rparr>"
  have t: "take 10 [''a'', ''c'', ''a''] = [''a'', ''c'', ''a'']" by simp
  have u: "?u = [?a', ?b, \<lparr>word = ''c'', frequency = 1, hue = 0, saturation = 0.5,
                          nextWords = [(''a'', 1)]\<rparr>]"
    unfolding t by (simp add: sched_words_value run_simps)
  have s: "seen_words True sched_words ?u = [?a', ?b]"
    unfolding u by (simp add: sched_words_value seen_words_def find_word_def)
  have s': "seen_words False sched_words ?u = sched_words"
    by (simp add: seen_words_def)
  have w: "walk 10 [?a', ?b] ''a'' = [''c'']"
    by (simp add: find_word_def best_successor_def eval_nat_numeral)
  have w': "walk 10 sched_words ''a''
              = [''b'', ''a'', ''b'', ''a'', ''b'', ''a'', ''b'', ''a'', ''b'', ''a'']"
    by (simp add: sched_words_value find_word_def best_successor_def eval_nat_numeral)
  have lst: "last (take 10 [''a'', ''c'', ''a'']) = ''a''" by simp
  have pe: "snd (processInput eager rnd0 4 sched_words [''a'', ''c'', ''a''])
              = walk 10 (seen_words eager sched_words ?u) (last (take 10 [''a'', ''c'', ''a'']))"
    for eager by (simp add: processInput_def Let_def)
  have e: "snd (processInput True rnd0 4 sched_words [''a'', ''c'', ''a'']) = [''c'']"
    by (simp only: pe s lst w)
  have l: "snd (processInput False rnd0 4 sched_words [''a'', ''c'', ''a''])
        = [''b'', ''a'', ''b'', ''a'', ''b'', ''a'', ''b'', ''a'', ''b'', ''a'']"
    by (simp only: pe s' lst w')
  show ?thesis unfolding e l using reachable_sched_words by simp
qed

end
